theory Spec2Isabelle
  imports Complex_Main "HOL-Library.Word" "HOL-Library.Signed_Division"
begin

unbundle bit_operations_syntax

section \<open>Data model\<close>

text \<open>
  \<^verbatim>\<open>UnsignedInteger\<close> holds \<^verbatim>\<open>std::uint32_t *digits, length, capacity\<close>. The model of a
  value is the list \<^verbatim>\<open>digits[0..length)\<close>, least significant limb first; each limb is a
  32-bit word, so the wrap-around the subtraction kernels rely on is the word's own.
  \<^verbatim>\<open>capacity\<close> only decides when \<^verbatim>\<open>resize\<close> reallocates and is not part of the value.
  The object identity of \<^verbatim>\<open>UnsignedInteger\<close> (pointers, moved-from sources) is modelled
  separately in the section on moves.
\<close>

type_synonym u32 = "32 word"

type_synonym UnsignedInteger = "u32 list"

definition Base :: u32 where
  "Base = 100000000"

definition TransformLimit :: nat where
  "TransformLimit = 4194304"

definition BruteforceThreshold :: nat where
  "BruteforceThreshold = 64"

record SignedInteger =
  absolute :: UnsignedInteger
  sign :: bool

text \<open>\<^verbatim>\<open>VALIDITY_CHECK\<close> with \<^verbatim>\<open>ENABLE_VALIDITY_CHECK\<close> defined throws \<^verbatim>\<open>std::invalid_argument\<close>.\<close>

datatype error = InvalidArgument

text \<open>The integer a limb array denotes, and the integer a signed value denotes.\<close>

fun uval :: "UnsignedInteger \<Rightarrow> nat" where
  "uval [] = 0"
| "uval (x # xs) = unat x + 100000000 * uval xs"

definition sval :: "SignedInteger \<Rightarrow> int" where
  "sval x = (if sign x then - int (uval (absolute x)) else int (uval (absolute x)))"

text \<open>
  The representation invariants of the data model: every limb below \<^verbatim>\<open>Base\<close>, at least one
  limb, and the top limb non-zero unless the length is one; for a signed value, a zero
  magnitude has the sign flag clear.
\<close>

definition limbsBelowBase :: "UnsignedInteger \<Rightarrow> bool" where
  "limbsBelowBase d = list_all (\<lambda>x. x < Base) d"

definition canonical :: "UnsignedInteger \<Rightarrow> bool" where
  "canonical d = (length d = 1 \<or> (1 < length d \<and> last d \<noteq> 0))"

definition magnitude :: "UnsignedInteger \<Rightarrow> bool" where
  "magnitude d = (limbsBelowBase d \<and> canonical d)"

definition signZeroNormal :: "SignedInteger \<Rightarrow> bool" where
  "signZeroNormal x = (\<not> (uval (absolute x) = 0 \<and> sign x))"

definition signedInvariant :: "SignedInteger \<Rightarrow> bool" where
  "signedInvariant x = (magnitude (absolute x) \<and> signZeroNormal x)"

section \<open>Canonicalisation, truth value, comparison\<close>

text \<open>\<^verbatim>\<open>for (; length > 1 && !digits[length - 1]; --length);\<close>\<close>

function truncateZeros :: "UnsignedInteger \<Rightarrow> UnsignedInteger" where
  "truncateZeros d =
     (if 1 < length d \<and> d ! (length d - 1) = 0 then truncateZeros (take (length d - 1) d) else d)"
  by pat_completeness auto
termination
  by (relation "measure length") auto

declare truncateZeros.simps [simp del]

text \<open>\<^verbatim>\<open>operator bool\<close>: \<^verbatim>\<open>length != 1 || *digits\<close>.\<close>

definition U_bool :: "UnsignedInteger \<Rightarrow> bool" where
  "U_bool d = (length d \<noteq> 1 \<or> d ! 0 \<noteq> 0)"

text \<open>\<^verbatim>\<open>operator==\<close>: equal lengths and \<^verbatim>\<open>memcmp\<close> of the limbs is zero.\<close>

definition U_eq :: "UnsignedInteger \<Rightarrow> UnsignedInteger \<Rightarrow> bool" where
  "U_eq a b = (length a = length b \<and> take (length a) a = take (length a) b)"

text \<open>
  \<^verbatim>\<open>reverseCompare\<close>, called only with \<^verbatim>\<open>length == other.length\<close>. The arrays are compared in
  blocks from the top: first the top \<^verbatim>\<open>length % 64\<close> limbs, then blocks of 64. A block that
  \<^verbatim>\<open>memcmp\<close> finds different is scanned from its top limb down, and the first differing
  pair returns \<^verbatim>\<open>std::int32_t(*first - *second)\<close>: the 32-bit difference, read as signed.
  \<open>scanDown\<close> takes the two blocks top limb first.
\<close>

fun scanDown :: "u32 list \<Rightarrow> u32 list \<Rightarrow> u32 option" where
  "scanDown (x # xs) (y # ys) = (if x \<noteq> y then Some (x - y) else scanDown xs ys)"
| "scanDown _ _ = None"

definition compareBlock :: "u32 list \<Rightarrow> u32 list \<Rightarrow> u32 option" where
  "compareBlock A B = (if A \<noteq> B then scanDown (rev A) (rev B) else None)"

function blockLoop :: "UnsignedInteger \<Rightarrow> UnsignedInteger \<Rightarrow> nat \<Rightarrow> u32" where
  "blockLoop a b k =
     (if k = 0 then 0
      else (case compareBlock (take 64 (drop (k - 64) a)) (take 64 (drop (k - 64) b)) of
              Some r \<Rightarrow> r
            | None \<Rightarrow> blockLoop a b (k - 64)))"
  by pat_completeness auto
termination
  by (relation "measure (\<lambda>(a, b, k). k)") auto

declare blockLoop.simps [simp del]

definition reverseCompare :: "UnsignedInteger \<Rightarrow> UnsignedInteger \<Rightarrow> u32" where
  "reverseCompare a b =
     (let remaining = length a mod 64;
          k = length a - remaining
      in case compareBlock (take remaining (drop k a)) (take remaining (drop k b)) of
           Some r \<Rightarrow> r
         | None \<Rightarrow> blockLoop a b k)"

definition U_less :: "UnsignedInteger \<Rightarrow> UnsignedInteger \<Rightarrow> bool" where
  "U_less a b = (length a < length b \<or> (length a = length b \<and> sint (reverseCompare a b) < 0))"

definition U_greater :: "UnsignedInteger \<Rightarrow> UnsignedInteger \<Rightarrow> bool" where
  "U_greater a b = (length a > length b \<or> (length a = length b \<and> sint (reverseCompare a b) > 0))"

definition U_lesseq :: "UnsignedInteger \<Rightarrow> UnsignedInteger \<Rightarrow> bool" where
  "U_lesseq a b = (length a < length b \<or> (length a = length b \<and> sint (reverseCompare a b) \<le> 0))"

definition U_greatereq :: "UnsignedInteger \<Rightarrow> UnsignedInteger \<Rightarrow> bool" where
  "U_greatereq a b = (length a > length b \<or> (length a = length b \<and> sint (reverseCompare a b) \<ge> 0))"

text \<open>
  \<^verbatim>\<open>SignedInteger::operator==\<close> and \<^verbatim>\<open>operator<\<close>:
  \<^verbatim>\<open>sign ? !other.sign || absolute > other.absolute : !other.sign && absolute < other.absolute\<close>.
\<close>

definition S_eq :: "SignedInteger \<Rightarrow> SignedInteger \<Rightarrow> bool" where
  "S_eq x y = (sign x = sign y \<and> U_eq (absolute x) (absolute y))"

definition S_less :: "SignedInteger \<Rightarrow> SignedInteger \<Rightarrow> bool" where
  "S_less x y =
     (if sign x then \<not> sign y \<or> U_greater (absolute x) (absolute y)
      else \<not> sign y \<and> U_less (absolute x) (absolute y))"

section \<open>Addition, subtraction, increment, decrement\<close>

text \<open>
  \<^verbatim>\<open>operator+=\<close>. When \<^verbatim>\<open>length <= other.length\<close> the array is resized to \<^verbatim>\<open>other.length + 1\<close> and
  the new limbs are zeroed. The first loop walks the limbs of \<^verbatim>\<open>other\<close>:
  \<^verbatim>\<open>if ((*thisDigit += *otherDigit) >= Base) *thisDigit -= Base, ++*(thisDigit + 1);\<close>
  (index \<open>i + 1\<close> is inside the array in both cases of the resize). The second loop
  propagates the carry and stops at \<^verbatim>\<open>thisEnd = digits + length - 1\<close>; it starts at index
  \<^verbatim>\<open>other.length\<close>, which is at most \<^verbatim>\<open>length - 1\<close>, so \<^verbatim>\<open>thisDigit != thisEnd\<close> is \<open>i < length - 1\<close>.
\<close>

fun addLoop :: "UnsignedInteger \<Rightarrow> u32 list \<Rightarrow> nat \<Rightarrow> UnsignedInteger" where
  "addLoop d [] i = d"
| "addLoop d (x # other) i =
     (let d1 = d[i := d ! i + x]
      in if Base \<le> d1 ! i
         then addLoop (d1[i := d1 ! i - Base, Suc i := d1 ! Suc i + 1]) other (Suc i)
         else addLoop d1 other (Suc i))"

function carryLoop :: "UnsignedInteger \<Rightarrow> nat \<Rightarrow> UnsignedInteger" where
  "carryLoop d i =
     (if i < length d - 1 \<and> Base \<le> d ! i
      then carryLoop (d[i := d ! i - Base, Suc i := d ! Suc i + 1]) (Suc i)
      else d)"
  by pat_completeness auto
termination
  by (relation "measure (\<lambda>(d, i). length d - i)") auto

declare carryLoop.simps [simp del]

definition U_add_assign :: "UnsignedInteger \<Rightarrow> UnsignedInteger \<Rightarrow> UnsignedInteger" where
  "U_add_assign this other =
     (let d = (if length this \<le> length other
               then this @ replicate (length other + 1 - length this) 0
               else this)
      in truncateZeros (carryLoop (addLoop d other 0) (length other)))"

text \<open>\<^verbatim>\<open>operator+\<close>: \<^verbatim>\<open>UnsignedInteger(*this) += other\<close>.\<close>

definition U_plus :: "UnsignedInteger \<Rightarrow> UnsignedInteger \<Rightarrow> UnsignedInteger" where
  "U_plus this other = U_add_assign this other"

text \<open>
  \<^verbatim>\<open>operator++\<close>: the carry loop of the addition after \<^verbatim>\<open>++*thisDigit\<close>, then, when the carry
  leaves the top limb, \<^verbatim>\<open>resize(length + 1), digits[length - 2] -= Base, digits[length - 1] = 1\<close>.
  The function returns the array and the index the loop stopped at.
\<close>

function incrementLoop :: "UnsignedInteger \<Rightarrow> nat \<Rightarrow> UnsignedInteger \<times> nat" where
  "incrementLoop d i =
     (if i < length d - 1 \<and> Base \<le> d ! i
      then incrementLoop (d[i := d ! i - Base, Suc i := d ! Suc i + 1]) (Suc i)
      else (d, i))"
  by pat_completeness auto
termination
  by (relation "measure (\<lambda>(d, i). length d - i)") auto

declare incrementLoop.simps [simp del]

definition U_increment :: "UnsignedInteger \<Rightarrow> UnsignedInteger" where
  "U_increment this =
     (case incrementLoop (this[0 := this ! 0 + 1]) 0 of
        (d, i) \<Rightarrow>
          if i = length d - 1 \<and> Base \<le> d ! i
          then d[length d - 1 := d ! (length d - 1) - Base] @ [1]
          else d)"

text \<open>
  \<^verbatim>\<open>operator-=\<close>, after \<^verbatim>\<open>VALIDITY_CHECK(*this >= other, ...)\<close>. A limb that wraps below zero
  is at least \<^verbatim>\<open>Base\<close> as an unsigned 32-bit value; the code adds \<^verbatim>\<open>Base\<close> back and decrements
  the next limb. Here \<^verbatim>\<open>thisEnd = digits + length\<close>.
\<close>

fun subLoop :: "UnsignedInteger \<Rightarrow> u32 list \<Rightarrow> nat \<Rightarrow> UnsignedInteger" where
  "subLoop d [] i = d"
| "subLoop d (x # other) i =
     (let d1 = d[i := d ! i - x]
      in if Base \<le> d1 ! i
         then subLoop (d1[i := d1 ! i + Base, Suc i := d1 ! Suc i - 1]) other (Suc i)
         else subLoop d1 other (Suc i))"

function borrowLoop :: "UnsignedInteger \<Rightarrow> nat \<Rightarrow> UnsignedInteger" where
  "borrowLoop d i =
     (if i < length d \<and> Base \<le> d ! i
      then borrowLoop (d[i := d ! i + Base, Suc i := d ! Suc i - 1]) (Suc i)
      else d)"
  by pat_completeness auto
termination
  by (relation "measure (\<lambda>(d, i). length d - i)") auto

declare borrowLoop.simps [simp del]

definition U_sub_assign :: "UnsignedInteger \<Rightarrow> UnsignedInteger \<Rightarrow> error + UnsignedInteger" where
  "U_sub_assign this other =
     (if \<not> U_greatereq this other then Inl InvalidArgument
      else Inr (truncateZeros (borrowLoop (subLoop this other 0) (length other))))"

text \<open>\<^verbatim>\<open>operator-\<close>: \<^verbatim>\<open>UnsignedInteger(*this) -= other\<close>.\<close>

definition U_minus :: "UnsignedInteger \<Rightarrow> UnsignedInteger \<Rightarrow> error + UnsignedInteger" where
  "U_minus this other = U_sub_assign this other"

text \<open>
  \<^verbatim>\<open>operator--\<close>, after \<^verbatim>\<open>VALIDITY_CHECK(bool(*this), ...)\<close>:
  \<^verbatim>\<open>for (--*thisDigit; thisDigit != thisEnd && *thisDigit >= Base; *thisDigit += Base, --*++thisDigit);\<close>
  with \<^verbatim>\<open>thisEnd = digits + length - 1\<close>, and \<^verbatim>\<open>return *this\<close> right after the loop.
\<close>

function decrementLoop :: "UnsignedInteger \<Rightarrow> nat \<Rightarrow> UnsignedInteger" where
  "decrementLoop d i =
     (if i < length d - 1 \<and> Base \<le> d ! i
      then decrementLoop (d[i := d ! i + Base, Suc i := d ! Suc i - 1]) (Suc i)
      else d)"
  by pat_completeness auto
termination
  by (relation "measure (\<lambda>(d, i). length d - i)") auto

declare decrementLoop.simps [simp del]

definition U_decrement :: "UnsignedInteger \<Rightarrow> error + UnsignedInteger" where
  "U_decrement this =
     (if \<not> U_bool this then Inl InvalidArgument
      else Inr (decrementLoop (this[0 := this ! 0 - 1]) 0))"

section \<open>Shifts by whole limbs\<close>

definition rightShift :: "UnsignedInteger \<Rightarrow> nat \<Rightarrow> UnsignedInteger" where
  "rightShift this shiftAmount =
     (if shiftAmount \<ge> length this then [0]
      else truncateZeros (drop shiftAmount this))"

definition leftShift :: "UnsignedInteger \<Rightarrow> nat \<Rightarrow> UnsignedInteger" where
  "leftShift this shiftAmount =
     (if length this = 0 \<or> shiftAmount = 0 then this
      else replicate shiftAmount 0 @ this)"

section \<open>Multiplication\<close>

text \<open>
  The schoolbook branch of \<^verbatim>\<open>operator*=\<close>. \<^verbatim>\<open>carry\<close> is a \<^verbatim>\<open>std::uint64_t\<close>: a natural number
  with the reduction modulo \<open>2 ^ 64\<close> written at every addition. Column \<open>i\<close> adds
  \<^verbatim>\<open>digits[i - j] * other.digits[j]\<close> for \<open>j\<close> from \<^verbatim>\<open>(i >= length ? i - length + 1 : 0)\<close> while
  \<^verbatim>\<open>j <= i && j < other.length\<close>, then emits \<^verbatim>\<open>carry % Base\<close> and keeps \<^verbatim>\<open>carry / Base\<close>.
\<close>

definition columnSum :: "UnsignedInteger \<Rightarrow> UnsignedInteger \<Rightarrow> nat \<Rightarrow> nat \<Rightarrow> nat" where
  "columnSum this other i carry =
     fold (\<lambda>j c. (c + unat (this ! (i - j)) * unat (other ! j)) mod 2 ^ 64)
       [(if i \<ge> length this then i - length this + 1 else 0) ..< min (Suc i) (length other)]
       carry"

fun mulColumns :: "UnsignedInteger \<Rightarrow> UnsignedInteger \<Rightarrow> nat list \<Rightarrow> nat \<Rightarrow> u32 list \<times> nat" where
  "mulColumns this other [] carry = ([], carry)"
| "mulColumns this other (i # rest) carry =
     (let c = columnSum this other i carry;
          (ds, c') = mulColumns this other rest (c div 100000000)
      in (of_nat (c mod 100000000) # ds, c'))"

definition schoolbook :: "UnsignedInteger \<Rightarrow> UnsignedInteger \<Rightarrow> UnsignedInteger" where
  "schoolbook this other =
     (case mulColumns this other [0 ..< length this + length other - 1] 0 of
        (ds, carry) \<Rightarrow> truncateZeros (if carry \<noteq> 0 then ds @ [of_nat carry] else ds))"

text \<open>
  The transform branch computes in \<^verbatim>\<open>double\<close>: the forward transforms, the packed pointwise
  product and the inverse transform are floating-point code and are not part of this
  embedding. The driver around them is: the parameter \<open>transformProduct\<close> stands for the
  contents of \<^verbatim>\<open>result.digits[0..resultLength)\<close> after the round-and-carry loop. (The loop
  after it, \<^verbatim>\<open>for (; carry && result.length != result.capacity; ...)\<close>, never runs its body:
  \<^verbatim>\<open>result\<close> was built with \<^verbatim>\<open>length == capacity\<close>.)

  \<^verbatim>\<open>operator*=\<close> takes the schoolbook branch when either operand has fewer than
  \<^verbatim>\<open>BruteforceThreshold\<close> limbs; only after that come the two capacity checks
  \<^verbatim>\<open>length <= TransformLimit\<close> and \<^verbatim>\<open>other.length <= TransformLimit\<close>.
\<close>

type_synonym transform = "UnsignedInteger \<Rightarrow> UnsignedInteger \<Rightarrow> UnsignedInteger"

definition U_mul_assign :: "transform \<Rightarrow> UnsignedInteger \<Rightarrow> UnsignedInteger \<Rightarrow> error + UnsignedInteger" where
  "U_mul_assign transformProduct this other =
     (if length this < BruteforceThreshold \<or> length other < BruteforceThreshold
      then Inr (schoolbook this other)
      else if \<not> length this \<le> TransformLimit then Inl InvalidArgument
      else if \<not> length other \<le> TransformLimit then Inl InvalidArgument
      else Inr (truncateZeros (transformProduct this other)))"

text \<open>\<^verbatim>\<open>operator*\<close>: \<^verbatim>\<open>UnsignedInteger(*this) *= other\<close>.\<close>

definition U_times :: "transform \<Rightarrow> UnsignedInteger \<Rightarrow> UnsignedInteger \<Rightarrow> error + UnsignedInteger" where
  "U_times transformProduct this other = U_mul_assign transformProduct this other"

text \<open>
  An instance for the parameter, used where the claims are about integer results: the
  transform branch idealised as exact (spec, testable property 8: the transform product and
  the schoolbook product agree). It returns the \<^verbatim>\<open>resultLength = length + other.length\<close>
  limbs of the product of the two denoted numbers. What the floating-point code computes is
  not derived here.
\<close>

fun limbsOfNat :: "nat \<Rightarrow> nat \<Rightarrow> UnsignedInteger" where
  "limbsOfNat 0 n = []"
| "limbsOfNat (Suc k) n = of_nat (n mod 100000000) # limbsOfNat k (n div 100000000)"

definition exactTransform :: transform where
  "exactTransform this other = limbsOfNat (length this + length other) (uval this * uval other)"

section \<open>Schoolbook division\<close>

text \<open>
  Results of the division routines are options: \<open>None\<close> stands for a run that has no
  defined result (a loop that does not end, or a write outside the array).

  \<^verbatim>\<open>getEstimatedValue\<close> is computed in \<^verbatim>\<open>std::uint64_t\<close>; for 32-bit limbs its value stays
  below \<open>2 ^ 63\<close>, so no reduction is written.
\<close>

definition getEstimatedValue :: "u32 list \<Rightarrow> nat \<Rightarrow> nat \<Rightarrow> nat" where
  "getEstimatedValue digitArray highIndex arrayLength =
     10 * 100000000 * (if highIndex + 1 < arrayLength then unat (digitArray ! (highIndex + 1)) else 0)
     + 10 * unat (digitArray ! highIndex)
     + (if highIndex \<noteq> 0 then unat (digitArray ! (highIndex - 1)) else 0) div 10000000"

text \<open>
  \<^verbatim>\<open>performSubtraction\<close>: \<^verbatim>\<open>carry\<close> is a \<^verbatim>\<open>std::int64_t\<close>, modelled by an integer (for limbs
  and partial quotients below \<open>2 ^ 31\<close> every value it takes is inside the 64-bit range);
  \<^verbatim>\<open>%\<close> and \<^verbatim>\<open>/\<close> truncate towards zero (\<open>smod\<close>, \<open>sdiv\<close>); the cast to \<^verbatim>\<open>std::uint32_t\<close>
  wraps. A negative remainder shows as a limb \<^verbatim>\<open>>= Base\<close> and is repaired by
  \<^verbatim>\<open>+= Base, --carry\<close>. The final \<^verbatim>\<open>if (carry) remainder.digits[currentPosition + divisor.length] += ...\<close>
  is a write outside the array when \<open>currentPosition + divisor.length = length\<close>.
\<close>

fun subtractLoop :: "u32 \<Rightarrow> u32 list \<Rightarrow> nat \<Rightarrow> u32 list \<Rightarrow> int \<Rightarrow> u32 list \<times> int" where
  "subtractLoop partialQuotient [] k remainder carry = (remainder, carry)"
| "subtractLoop partialQuotient (y # divisor) k remainder carry =
     (let c = carry - uint partialQuotient * uint y + uint (remainder ! k);
          r = (word_of_int (c smod 100000000) :: u32);
          c1 = c sdiv 100000000
      in if Base \<le> r
         then subtractLoop partialQuotient divisor (Suc k) (remainder[k := r + Base]) (c1 - 1)
         else subtractLoop partialQuotient divisor (Suc k) (remainder[k := r]) c1)"

definition performSubtraction ::
  "u32 \<Rightarrow> UnsignedInteger \<Rightarrow> nat \<Rightarrow> u32 list \<times> u32 list \<Rightarrow> (u32 list \<times> u32 list) option" where
  "performSubtraction partialQuotient divisor currentPosition QR =
     (case subtractLoop partialQuotient divisor currentPosition (snd QR) 0 of
        (remainder, carry) \<Rightarrow>
          let quot = (fst QR)[currentPosition := fst QR ! currentPosition + partialQuotient];
              top = currentPosition + length divisor
          in if carry \<noteq> 0
             then (if top < length remainder
                   then Some (quot, remainder[top := remainder ! top + word_of_int carry])
                   else None)
             else Some (quot, remainder))"

text \<open>
  \<^verbatim>\<open>for (quotient.digits[currentPosition] = 0; (partialQuotient = std::uint32_t(
  getEstimatedValue(remainder.digits, currentPosition + divisor.length - 1, length) /
  (getEstimatedValue(divisor.digits, divisor.length - 1, divisor.length) + 1))); performSubtraction());\<close>
\<close>

definition estimate :: "UnsignedInteger \<Rightarrow> nat \<Rightarrow> nat \<Rightarrow> u32 list \<Rightarrow> u32" where
  "estimate divisor n currentPosition remainder =
     of_nat (getEstimatedValue remainder (currentPosition + length divisor - 1) n
             div (getEstimatedValue divisor (length divisor - 1) (length divisor) + 1))"

partial_function (option) estimateLoop ::
  "UnsignedInteger \<Rightarrow> nat \<Rightarrow> nat \<Rightarrow> u32 list \<times> u32 list \<Rightarrow> (u32 list \<times> u32 list) option" where
  "estimateLoop divisor n currentPosition QR =
     (let partialQuotient = estimate divisor n currentPosition (snd QR)
      in if partialQuotient \<noteq> 0
         then Option.bind (performSubtraction partialQuotient divisor currentPosition QR)
                (estimateLoop divisor n currentPosition)
         else Some QR)"

declare estimateLoop.simps [code]

text \<open>
  The final adjustment: \<^verbatim>\<open>partialQuotient = 1\<close>, then the window of the remainder is compared
  with the divisor from the top limb down; the first differing pair sets
  \<^verbatim>\<open>partialQuotient = divisor.digits[digitIndex] < remainder.digits[digitIndex + currentPosition]\<close>.
  Both arguments are given top limb first.
\<close>

fun finalAdjust :: "u32 list \<Rightarrow> u32 list \<Rightarrow> u32" where
  "finalAdjust (r # window) (y # divisor) =
     (if r \<noteq> y then (if y < r then 1 else 0) else finalAdjust window divisor)"
| "finalAdjust _ _ = 1"

definition processPosition ::
  "UnsignedInteger \<Rightarrow> nat \<Rightarrow> nat \<Rightarrow> u32 list \<times> u32 list \<Rightarrow> (u32 list \<times> u32 list) option" where
  "processPosition divisor n currentPosition QR =
     Option.bind (estimateLoop divisor n currentPosition ((fst QR)[currentPosition := 0], snd QR))
       (\<lambda>QR1.
          if finalAdjust (rev (take (length divisor) (drop currentPosition (snd QR1)))) (rev divisor) \<noteq> 0
          then performSubtraction 1 divisor currentPosition QR1
          else Some QR1)"

text \<open>
  \<^verbatim>\<open>for (std::uint32_t currentPosition = length - divisor.length; ~currentPosition; --currentPosition)\<close>:
  the positions \<open>length - divisor.length\<close> down to 0; the third argument counts the
  positions left.
\<close>

fun positionLoop ::
  "UnsignedInteger \<Rightarrow> nat \<Rightarrow> nat \<Rightarrow> u32 list \<times> u32 list \<Rightarrow> (u32 list \<times> u32 list) option" where
  "positionLoop divisor n 0 QR = Some QR"
| "positionLoop divisor n (Suc currentPosition) QR =
     Option.bind (processPosition divisor n currentPosition QR) (positionLoop divisor n currentPosition)"

definition bruteforceDivisionAndModulus ::
  "UnsignedInteger \<Rightarrow> UnsignedInteger \<Rightarrow> (UnsignedInteger \<times> UnsignedInteger) option" where
  "bruteforceDivisionAndModulus this divisor =
     (if U_less this divisor then Some ([0], this)
      else Option.bind
             (positionLoop divisor (length this) (length this - length divisor + 1)
                (replicate (length this - length divisor + 1) 0, this))
             (\<lambda>QR. Some (truncateZeros (fst QR), truncateZeros (snd QR))))"

section \<open>Reciprocal and division\<close>

text \<open>
  Calls that can throw return \<open>error + 'a\<close>; inside the division routines, which can also
  fail to return, the two are combined and \<open>andThen\<close> sequences them: the first exception
  or undefined run ends the computation.
\<close>

definition andThen :: "(error + 'a) option \<Rightarrow> ('a \<Rightarrow> (error + 'b) option) \<Rightarrow> (error + 'b) option" where
  "andThen m f = Option.bind m (\<lambda>r. case r of Inl e \<Rightarrow> Some (Inl e) | Inr x \<Rightarrow> f x)"

lemma andThen_mono [partial_function_mono]:
  assumes "mono_option B" and "\<And>y. mono_option (\<lambda>f. C y f)"
  shows "mono_option (\<lambda>f. andThen (B f) (\<lambda>y. C y f))"
  unfolding andThen_def
proof (rule bind_mono [OF assms(1)])
  fix r :: "error + 'c"
  show "mono_option (\<lambda>f. case r of Inl e \<Rightarrow> Some (Inl e) | Inr x \<Rightarrow> C x f)"
    by (cases r) (simp_all add: assms(2) option.const_mono)
qed

text \<open>Subtraction of \<^verbatim>\<open>std::uint32_t\<close> lengths wraps modulo \<open>2 ^ 32\<close>.\<close>

definition wrap32 :: "int \<Rightarrow> nat" where
  "wrap32 x = nat (x mod 2 ^ 32)"

text \<open>
  \<^verbatim>\<open>computeInverse\<close>. The base case divides \<open>Base ^ precisionBits\<close> (the array of
  \<^verbatim>\<open>precisionBits\<close> zero limbs and a final 1) by \<^verbatim>\<open>*this\<close> with the schoolbook routine. The
  recursive case is
  \<^verbatim>\<open>(approximateInverse + approximateInverse).leftShift(precisionBits - newPrecision - shiftBack)
  - (*this * approximateInverse * approximateInverse).rightShift(2 * (newPrecision + shiftBack) - precisionBits)\<close>
  followed by \<^verbatim>\<open>return --result\<close>.
\<close>

partial_function (option) computeInverse ::
  "transform \<Rightarrow> UnsignedInteger \<Rightarrow> nat \<Rightarrow> (error + UnsignedInteger) option" where
  "computeInverse F this precisionBits =
     (if length this < BruteforceThreshold \<or> precisionBits < length this + BruteforceThreshold
      then map_option (\<lambda>QR. Inr (fst QR))
             (bruteforceDivisionAndModulus (replicate precisionBits 0 @ [1]) this)
      else
        let halfPrecision = (precisionBits - length this + 5) div 2;
            shiftBack = (if halfPrecision > length this then 0 else length this - halfPrecision);
            truncated = rightShift this shiftBack;
            newPrecision = halfPrecision + length truncated
        in andThen (computeInverse F truncated newPrecision) (\<lambda>approximateInverse.
           andThen (Some (U_times F this approximateInverse)) (\<lambda>product1.
           andThen (Some (U_times F product1 approximateInverse)) (\<lambda>product2.
           andThen (Some (U_minus
                      (leftShift (U_plus approximateInverse approximateInverse)
                         (wrap32 (int precisionBits - int newPrecision - int shiftBack)))
                      (rightShift product2
                         (wrap32 (2 * (int newPrecision + int shiftBack) - int precisionBits)))))
             (\<lambda>result. Some (U_decrement result))))))"

declare computeInverse.simps [code]

text \<open>\<^verbatim>\<open>while (quotient * other > *this) --quotient;\<close>\<close>

partial_function (option) decrementWhileAbove ::
  "transform \<Rightarrow> UnsignedInteger \<Rightarrow> UnsignedInteger \<Rightarrow> UnsignedInteger \<Rightarrow> (error + UnsignedInteger) option" where
  "decrementWhileAbove F this other quot =
     andThen (Some (U_times F quot other)) (\<lambda>product.
       if U_greater product this
       then andThen (Some (U_decrement quot)) (decrementWhileAbove F this other)
       else Some (Inr quot))"

declare decrementWhileAbove.simps [code]

text \<open>\<^verbatim>\<open>for (; remainder >= other; ++quotient, remainder -= other);\<close>\<close>

partial_function (option) subtractWhileNotBelow ::
  "UnsignedInteger \<Rightarrow> UnsignedInteger \<times> UnsignedInteger \<Rightarrow>
   (error + UnsignedInteger \<times> UnsignedInteger) option" where
  "subtractWhileNotBelow other QR =
     (if U_greatereq (snd QR) other
      then andThen (Some (U_sub_assign (snd QR) other))
             (\<lambda>remainder. subtractWhileNotBelow other (U_increment (fst QR), remainder))
      else Some (Inr QR))"

declare subtractWhileNotBelow.simps [code]

definition divisionAndModulus ::
  "transform \<Rightarrow> UnsignedInteger \<Rightarrow> UnsignedInteger \<Rightarrow>
   (error + UnsignedInteger \<times> UnsignedInteger) option" where
  "divisionAndModulus F this other =
     (if U_less this other then Some (Inr ([0], this))
      else if length this < BruteforceThreshold \<or> length other < BruteforceThreshold
      then map_option Inr (bruteforceDivisionAndModulus this other)
      else
        let precisionBits = length this - length other + 5;
            shiftBack = (if precisionBits > length other then 0 else length other - precisionBits);
            shifted = rightShift other shiftBack;
            adjustedDivisor = (if shiftBack \<noteq> 0 then U_increment shifted else shifted);
            inversePrecision = precisionBits + length adjustedDivisor
        in andThen (computeInverse F adjustedDivisor inversePrecision) (\<lambda>inverse.
           andThen (Some (U_times F this inverse)) (\<lambda>product.
           andThen (decrementWhileAbove F this other (rightShift product (inversePrecision + shiftBack)))
             (\<lambda>quot.
           andThen (Some (U_times F quot other)) (\<lambda>product2.
           andThen (Some (U_minus this product2)) (\<lambda>remainder.
           subtractWhileNotBelow other (quot, remainder)))))))"

text \<open>
  \<^verbatim>\<open>operator/=\<close> and \<^verbatim>\<open>operator%=\<close> are modelled with the state of \<^verbatim>\<open>*this\<close> explicit: the result
  is the exception thrown, if any, and the value \<^verbatim>\<open>*this\<close> holds afterwards.
  \<^verbatim>\<open>VALIDITY_CHECK(bool(other), ...)\<close> comes first; the only write to \<^verbatim>\<open>*this\<close> is the final
  move-assignment of the quotient (or remainder).
\<close>

definition U_div_assign ::
  "transform \<Rightarrow> UnsignedInteger \<Rightarrow> UnsignedInteger \<Rightarrow> (error option \<times> UnsignedInteger) option" where
  "U_div_assign F this other =
     (if \<not> U_bool other then Some (Some InvalidArgument, this)
      else case divisionAndModulus F this other of
             None \<Rightarrow> None
           | Some (Inl e) \<Rightarrow> Some (Some e, this)
           | Some (Inr QR) \<Rightarrow> Some (None, fst QR))"

definition U_mod_assign ::
  "transform \<Rightarrow> UnsignedInteger \<Rightarrow> UnsignedInteger \<Rightarrow> (error option \<times> UnsignedInteger) option" where
  "U_mod_assign F this other =
     (if \<not> U_bool other then Some (Some InvalidArgument, this)
      else case divisionAndModulus F this other of
             None \<Rightarrow> None
           | Some (Inl e) \<Rightarrow> Some (Some e, this)
           | Some (Inr QR) \<Rightarrow> Some (None, snd QR))"

text \<open>\<^verbatim>\<open>operator/\<close> and \<^verbatim>\<open>operator%\<close> work on a copy and return it.\<close>

definition U_divide :: "transform \<Rightarrow> UnsignedInteger \<Rightarrow> UnsignedInteger \<Rightarrow> (error + UnsignedInteger) option" where
  "U_divide F this other =
     map_option (\<lambda>r. case r of (None, q) \<Rightarrow> Inr q | (Some e, q) \<Rightarrow> Inl e) (U_div_assign F this other)"

definition U_modulo :: "transform \<Rightarrow> UnsignedInteger \<Rightarrow> UnsignedInteger \<Rightarrow> (error + UnsignedInteger) option" where
  "U_modulo F this other =
     map_option (\<lambda>r. case r of (None, q) \<Rightarrow> Inr q | (Some e, q) \<Rightarrow> Inl e) (U_mod_assign F this other)"

section \<open>Signed arithmetic\<close>

text \<open>Every signed operator ends with \<^verbatim>\<open>sign = sign && bool(absolute)\<close>.\<close>

definition normalizeSign :: "UnsignedInteger \<Rightarrow> bool \<Rightarrow> SignedInteger" where
  "normalizeSign a s = \<lparr>absolute = a, sign = (s \<and> U_bool a)\<rparr>"

text \<open>
  \<^verbatim>\<open>operator+=\<close>:
  \<^verbatim>\<open>sign == other.sign ? absolute += other.absolute : (absolute < other.absolute ? sign = !sign,
  absolute = other.absolute - absolute : absolute -= other.absolute), sign = sign && bool(absolute);\<close>
  and \<^verbatim>\<open>operator-=\<close>, the same with \<^verbatim>\<open>sign != other.sign\<close> as the first test.
\<close>

definition addMagnitudes :: "bool \<Rightarrow> SignedInteger \<Rightarrow> SignedInteger \<Rightarrow> error + SignedInteger" where
  "addMagnitudes sameDirection this other =
     (if sameDirection
      then Inr (normalizeSign (U_add_assign (absolute this) (absolute other)) (sign this))
      else if U_less (absolute this) (absolute other)
      then (case U_minus (absolute other) (absolute this) of
              Inl e \<Rightarrow> Inl e
            | Inr d \<Rightarrow> Inr (normalizeSign d (\<not> sign this)))
      else (case U_sub_assign (absolute this) (absolute other) of
              Inl e \<Rightarrow> Inl e
            | Inr d \<Rightarrow> Inr (normalizeSign d (sign this))))"

definition S_add_assign :: "SignedInteger \<Rightarrow> SignedInteger \<Rightarrow> error + SignedInteger" where
  "S_add_assign this other = addMagnitudes (sign this = sign other) this other"

definition S_sub_assign :: "SignedInteger \<Rightarrow> SignedInteger \<Rightarrow> error + SignedInteger" where
  "S_sub_assign this other = addMagnitudes (sign this \<noteq> sign other) this other"

text \<open>\<^verbatim>\<open>absolute *= other.absolute, sign = (sign ^ other.sign) && bool(absolute);\<close>\<close>

definition S_mul_assign :: "transform \<Rightarrow> SignedInteger \<Rightarrow> SignedInteger \<Rightarrow> error + SignedInteger" where
  "S_mul_assign F this other =
     (case U_mul_assign F (absolute this) (absolute other) of
        Inl e \<Rightarrow> Inl e
      | Inr p \<Rightarrow> Inr (normalizeSign p (sign this \<noteq> sign other)))"

text \<open>
  \<^verbatim>\<open>operator/=\<close>: \<^verbatim>\<open>VALIDITY_CHECK(bool(other), ...)\<close>, then
  \<^verbatim>\<open>absolute /= other.absolute, sign ^= other.sign, sign = sign && bool(absolute);\<close>
\<close>

definition S_div_assign :: "transform \<Rightarrow> SignedInteger \<Rightarrow> SignedInteger \<Rightarrow> (error + SignedInteger) option" where
  "S_div_assign F this other =
     (if \<not> U_bool (absolute other) then Some (Inl InvalidArgument)
      else andThen (U_divide F (absolute this) (absolute other))
             (\<lambda>q. Some (Inr (normalizeSign q (sign this \<noteq> sign other)))))"

text \<open>\<^verbatim>\<open>operator%=\<close>: \<^verbatim>\<open>VALIDITY_CHECK(bool(other), ...)\<close>, then \<^verbatim>\<open>*this -= (*this / other) * other;\<close>\<close>

definition S_mod_assign :: "transform \<Rightarrow> SignedInteger \<Rightarrow> SignedInteger \<Rightarrow> (error + SignedInteger) option" where
  "S_mod_assign F this other =
     (if \<not> U_bool (absolute other) then Some (Inl InvalidArgument)
      else andThen (S_div_assign F this other) (\<lambda>q.
           andThen (Some (S_mul_assign F q other)) (\<lambda>p.
           Some (S_sub_assign this p))))"

section \<open>Construction from a floating-point value\<close>

text \<open>
  \<^verbatim>\<open>UnsignedInteger(floatingPoint value)\<close>, after the two validity checks (non-negative,
  finite):
  \<^verbatim>\<open>while (digits[length++] = std::uint32_t(std::fmod(value, Base)), (value = std::floor(value / Base)));\<close>
  A finite \<^verbatim>\<open>double\<close> is modelled by the real number it denotes. \<^verbatim>\<open>std::fmod\<close>, \<^verbatim>\<open>std::floor\<close>,
  \<^verbatim>\<open>std::abs\<close> and the comparison with zero are exact in IEEE arithmetic; the quotient
  \<^verbatim>\<open>value / Base\<close> is rounded, and the rounding is the parameter \<open>rnd\<close>. The loop is a
  partial function: \<open>None\<close> is a loop that does not end.
\<close>

definition fmodBase :: "real \<Rightarrow> real" where
  "fmodBase v = v - 100000000 * of_int \<lfloor>v / 100000000\<rfloor>"

partial_function (option) floatLimbs :: "(real \<Rightarrow> real) \<Rightarrow> real \<Rightarrow> u32 list option" where
  "floatLimbs rnd v =
     (let d = (word_of_int \<lfloor>fmodBase v\<rfloor> :: u32);
          v' = of_int \<lfloor>rnd (v / 100000000)\<rfloor>
      in if v' \<noteq> 0 then Option.bind (floatLimbs rnd v') (\<lambda>ds. Some (d # ds)) else Some [d])"

declare floatLimbs.simps [code]

definition U_from_floating :: "(real \<Rightarrow> real) \<Rightarrow> real \<Rightarrow> (error + UnsignedInteger) option" where
  "U_from_floating rnd v =
     (if \<not> 0 \<le> v then Some (Inl InvalidArgument)
      else map_option Inr (floatLimbs rnd v))"

text \<open>\<^verbatim>\<open>SignedInteger(floatingPoint value) : absolute(std::abs(value)), sign(value < 0) {}\<close>\<close>

definition S_from_floating :: "(real \<Rightarrow> real) \<Rightarrow> real \<Rightarrow> (error + SignedInteger) option" where
  "S_from_floating rnd v =
     andThen (U_from_floating rnd \<bar>v\<bar>) (\<lambda>a. Some (Inr \<lparr>absolute = a, sign = (v < 0)\<rparr>))"

section \<open>Decimal strings\<close>

text \<open>
  \<^verbatim>\<open>detail::I\<close> reads two characters as one \<^verbatim>\<open>std::uint16_t\<close> (little-endian: the first
  character is the low byte) and looks the pair up in a table that holds
  \<^verbatim>\<open>(j & 15) * 10 + (i & 15)\<close> at index \<^verbatim>\<open>i << 8 | j\<close> for two digit characters and zero elsewhere.
\<close>

definition isDigit :: "char \<Rightarrow> bool" where
  "isDigit c = (48 \<le> (of_char c :: nat) \<and> (of_char c :: nat) \<le> 57)"

definition InputHelper :: "char \<Rightarrow> char \<Rightarrow> u32" where
  "InputHelper c0 c1 =
     (if isDigit c0 \<and> isDigit c1 then (of_char c0 AND 15) * 10 + (of_char c1 AND 15) else 0)"

definition I2 :: "string \<Rightarrow> nat \<Rightarrow> u32" where
  "I2 s i = InputHelper (s ! i) (s ! (i + 1))"

text \<open>The \<^verbatim>\<open>switch (stringLength & 7)\<close> of \<^verbatim>\<open>construct\<close>: the top limb takes 1 to 7 characters.\<close>

definition topLimb :: "string \<Rightarrow> nat \<Rightarrow> u32" where
  "topLimb s r =
     (if r = 1 then of_char (s ! 0) AND 15
      else if r = 2 then I2 s 0
      else if r = 3 then (of_char (s ! 0) AND 15) * 100 + I2 s 1
      else if r = 4 then I2 s 0 * 100 + I2 s 2
      else if r = 5 then (of_char (s ! 0) AND 15) * 10000 + I2 s 1 * 100 + I2 s 3
      else if r = 6 then I2 s 0 * 10000 + I2 s 2 * 100 + I2 s 4
      else (of_char (s ! 0) AND 15) * 1000000 + I2 s 1 * 10000 + I2 s 3 * 100 + I2 s 5)"

definition limb8 :: "string \<Rightarrow> nat \<Rightarrow> u32" where
  "limb8 s position =
     I2 s position * 1000000 + I2 s (position + 2) * 10000 + I2 s (position + 4) * 100
     + I2 s (position + 6)"

text \<open>
  \<^verbatim>\<open>construct(value, stringLength)\<close> on an array of \<open>len\<close> limbs. With \<open>r = stringLength & 7\<close>,
  the top limb \<^verbatim>\<open>digits[len - 1]\<close> takes the first \<open>r\<close> characters when \<open>r \<noteq> 0\<close>; the loop
  then fills the limbs below it downwards, eight characters each, starting at character
  \<open>r\<close>. (For \<open>len = 0\<close> and \<open>r \<noteq> 0\<close> the source writes before the array; the model leaves
  the array empty.)
\<close>

definition construct :: "string \<Rightarrow> nat \<Rightarrow> nat \<Rightarrow> UnsignedInteger" where
  "construct s stringLength len =
     (let r = stringLength mod 8;
          k = (if r = 0 then len else len - 1)
      in truncateZeros
           (map (\<lambda>j. limb8 s (r + 8 * (k - 1 - j))) [0 ..< k]
            @ (if r = 0 \<or> len = 0 then [] else [topLimb s r])))"

text \<open>
  \<^verbatim>\<open>UnsignedInteger(const std::string& value)\<close>: the array has
  \<^verbatim>\<open>std::uint32_t(value.size() + 7) >> 3\<close> limbs and \<^verbatim>\<open>construct\<close> gets
  \<^verbatim>\<open>std::uint32_t(value.size())\<close>; both casts reduce modulo \<open>2 ^ 32\<close>.
\<close>

definition U_from_string :: "string \<Rightarrow> error + UnsignedInteger" where
  "U_from_string s =
     (if length s = 0 then Inl InvalidArgument
      else if \<not> list_all isDigit s then Inl InvalidArgument
      else Inr (construct s (length s mod 2 ^ 32) ((length s + 7) mod 2 ^ 32 div 8)))"

text \<open>
  \<^verbatim>\<open>operator std::string\<close>: \<^verbatim>\<open>std::to_string\<close> of the top limb, then for every lower limb
  \<^verbatim>\<open>detail::O(*i / 10000)\<close> and \<^verbatim>\<open>detail::O(*i % 10000)\<close>, four characters each (the table
  has 10000 entries; a limb below \<^verbatim>\<open>Base\<close> stays inside it).
\<close>

definition digitChar :: "nat \<Rightarrow> char" where
  "digitChar n = char_of (48 + n)"

fun to_string :: "nat \<Rightarrow> string" where
  "to_string n = (if n < 10 then [digitChar n] else to_string (n div 10) @ [digitChar (n mod 10)])"

declare to_string.simps [simp del]

definition OutputHelper :: "nat \<Rightarrow> string" where
  "OutputHelper v =
     [digitChar (v div 1000 mod 10), digitChar (v div 100 mod 10), digitChar (v div 10 mod 10),
      digitChar (v mod 10)]"

definition U_to_string :: "UnsignedInteger \<Rightarrow> string" where
  "U_to_string d =
     (if length d = 0 then ''0''
      else to_string (unat (last d))
           @ concat (map (\<lambda>x. OutputHelper (unat x div 10000) @ OutputHelper (unat x mod 10000))
                       (rev (butlast d))))"

section \<open>Moves\<close>

text \<open>
  The move constructor and the move assignment act on objects: the claim about the
  moved-from source depends on whether source and destination are the same object. An
  object is the triple \<^verbatim>\<open>digits, length, capacity\<close>, \<^verbatim>\<open>digits\<close> a pointer into a store of
  arrays; \<^verbatim>\<open>new std::uint32_t[1]()\<close> takes the next unused pointer and \<^verbatim>\<open>delete[]\<close> frees one.
\<close>

record object =
  digits :: nat
  len :: nat
  capacity :: nat

record heap =
  objects :: "nat \<rightharpoonup> object"
  arrays :: "nat \<rightharpoonup> u32 list"
  nextPointer :: nat

definition newZeroArray :: "heap \<Rightarrow> nat \<times> heap" where
  "newZeroArray h =
     (nextPointer h, h\<lparr>arrays := (arrays h)(nextPointer h \<mapsto> [0]), nextPointer := Suc (nextPointer h)\<rparr>)"

text \<open>The limbs an object holds: the first \<^verbatim>\<open>length\<close> cells of its array.\<close>

definition limbsOf :: "heap \<Rightarrow> nat \<Rightarrow> u32 list option" where
  "limbsOf h a =
     (case objects h a of
        None \<Rightarrow> None
      | Some ob \<Rightarrow> (case arrays h (digits ob) of None \<Rightarrow> None | Some xs \<Rightarrow> Some (take (len ob) xs)))"

text \<open>
  \<^verbatim>\<open>UnsignedInteger(UnsignedInteger&& other) noexcept : digits(other.digits), length(other.length),
  capacity(other.capacity) { other.digits = new std::uint32_t[other.length = other.capacity = 1](); }\<close>
  constructs the object at address \<open>this\<close>.
\<close>

definition moveConstruct :: "heap \<Rightarrow> nat \<Rightarrow> nat \<Rightarrow> heap" where
  "moveConstruct h this other =
     (case objects h other of
        None \<Rightarrow> h
      | Some ob \<Rightarrow>
          let h1 = h\<lparr>objects := (objects h)(this \<mapsto> ob)\<rparr>;
              (p, h2) = newZeroArray h1
          in h2\<lparr>objects := (objects h2)(other \<mapsto> \<lparr>digits = p, len = 1, capacity = 1\<rparr>)\<rparr>)"

text \<open>
  \<^verbatim>\<open>operator=(UnsignedInteger&& other)\<close>:
  \<^verbatim>\<open>if (this != &other) { if (digits != other.digits) { delete[] digits; digits = other.digits;
  length = other.length; capacity = other.capacity;
  other.digits = new std::uint32_t[other.length = other.capacity = 1](); } } return *this;\<close>
\<close>

definition moveAssign :: "heap \<Rightarrow> nat \<Rightarrow> nat \<Rightarrow> heap" where
  "moveAssign h this other =
     (case (objects h this, objects h other) of
        (Some tb, Some ob) \<Rightarrow>
          if this \<noteq> other
          then (if digits tb \<noteq> digits ob
                then let h1 = h\<lparr>arrays := (arrays h)(digits tb := None)\<rparr>;
                         h2 = h1\<lparr>objects := (objects h1)(this \<mapsto> ob)\<rparr>;
                         (p, h3) = newZeroArray h2
                     in h3\<lparr>objects := (objects h3)(other \<mapsto> \<lparr>digits = p, len = 1, capacity = 1\<rparr>)\<rparr>
                else h)
          else h
      | _ \<Rightarrow> h)"

section \<open>Notions used to state the decimal round trip\<close>

text \<open>The number a string of decimal digits denotes, and the digit a character denotes.\<close>

definition digitOf :: "char \<Rightarrow> nat" where
  "digitOf c = of_char c - 48"

fun dec :: "string \<Rightarrow> nat" where
  "dec [] = 0"
| "dec (c # s) = digitOf c * 10 ^ length s + dec s"

text \<open>
  The spec's reading of the printed form of a parsed string: the string without its
  insignificant leading zeros, a single \<open>0\<close> when nothing else is left.
\<close>

definition stripLeadingZeros :: "string \<Rightarrow> string" where
  "stripLeadingZeros s =
     (let t = dropWhile (\<lambda>c. c = CHR ''0'') s in if t = [] then ''0'' else t)"

text \<open>The limbs \<^verbatim>\<open>construct\<close> writes, before the trailing zero limbs are dropped.\<close>

definition writtenLimbs :: "string \<Rightarrow> UnsignedInteger" where
  "writtenLimbs s =
     (let r = length s mod 8; k = length s div 8
      in map (\<lambda>j. limb8 s (r + 8 * (k - 1 - j))) [0 ..< k] @ (if r = 0 then [] else [topLimb s r]))"

text \<open>Printing with a fixed number of digits, leading zeros included.\<close>

fun fixedWidth :: "nat \<Rightarrow> nat \<Rightarrow> string" where
  "fixedWidth 0 b = []"
| "fixedWidth (Suc j) b = fixedWidth j (b div 10) @ [digitChar (b mod 10)]"

section \<open>Verification: comparison\<close>

lemma scanDown_append:
  "length xs = length ys \<Longrightarrow>
   scanDown (xs @ xs') (ys @ ys') = (case scanDown xs ys of Some r \<Rightarrow> Some r | None \<Rightarrow> scanDown xs' ys')"
  by (induction xs ys rule: list_induct2) auto

lemma scanDown_None_iff:
  "length xs = length ys \<Longrightarrow> (scanDown xs ys = None) = (xs = ys)"
  by (induction xs ys rule: list_induct2) auto

lemma compareBlock_eq:
  "length A = length B \<Longrightarrow> compareBlock A B = scanDown (rev A) (rev B)"
  using scanDown_None_iff [of "rev A" "rev B"] by (auto simp: compareBlock_def)

lemma blockLoop_scan:
  "length a = length b \<Longrightarrow> k = 64 * j \<Longrightarrow> k \<le> length a \<Longrightarrow>
   blockLoop a b k = (case scanDown (rev (take k a)) (rev (take k b)) of Some r \<Rightarrow> r | None \<Rightarrow> 0)"
proof (induction j arbitrary: k)
  case 0
  then show ?case by (simp add: blockLoop.simps)
next
  case (Suc j)
  let ?k' = "64 * j"
  let ?A = "take 64 (drop ?k' a)" and ?B = "take 64 (drop ?k' b)"
  have k: "k - 64 = ?k'" "k \<noteq> 0" using Suc.prems by auto
  have len: "length ?A = length ?B" using Suc.prems by simp
  have ta: "take k a = take ?k' a @ ?A" and tb: "take k b = take ?k' b @ ?B"
    using Suc.prems by (simp_all add: take_add [symmetric] add.commute)
  have IH: "blockLoop a b ?k' = (case scanDown (rev (take ?k' a)) (rev (take ?k' b)) of Some r \<Rightarrow> r | None \<Rightarrow> 0)"
    using Suc.IH [of ?k'] Suc.prems by simp
  have "blockLoop a b k = (case compareBlock ?A ?B of Some r \<Rightarrow> r | None \<Rightarrow> blockLoop a b ?k')"
    using k by (subst blockLoop.simps) (simp split: option.splits)
  also have "\<dots> = (case scanDown (rev ?A) (rev ?B) of Some r \<Rightarrow> r | None \<Rightarrow> blockLoop a b ?k')"
    using len by (simp add: compareBlock_eq)
  also have "\<dots> = (case scanDown (rev (take k a)) (rev (take k b)) of Some r \<Rightarrow> r | None \<Rightarrow> 0)"
    unfolding ta tb rev_append using len
    by (simp add: scanDown_append IH split: option.splits)
  finally show ?case .
qed

lemma reverseCompare_scan:
  assumes "length a = length b"
  shows "reverseCompare a b = (case scanDown (rev a) (rev b) of Some r \<Rightarrow> r | None \<Rightarrow> 0)"
proof -
  let ?r = "length a mod 64"
  let ?k = "length a - ?r"
  let ?A = "take ?r (drop ?k a)" and ?B = "take ?r (drop ?k b)"
  have k: "?k = 64 * (length a div 64)" by (simp add: minus_mod_eq_mult_div)
  have kle: "?k \<le> length a" by simp
  have A: "?A = drop ?k a" and B: "?B = drop ?k b" using assms by simp_all
  have len: "length ?A = length ?B" using assms by simp
  have sa: "take ?k a @ ?A = a" and sb: "take ?k b @ ?B = b" unfolding A B by simp_all
  have bl: "blockLoop a b ?k = (case scanDown (rev (take ?k a)) (rev (take ?k b)) of Some r \<Rightarrow> r | None \<Rightarrow> 0)"
    using blockLoop_scan [OF assms k kle] .
  have "reverseCompare a b = (case scanDown (rev ?A) (rev ?B) of Some r \<Rightarrow> r | None \<Rightarrow> blockLoop a b ?k)"
    using len by (simp add: reverseCompare_def Let_def compareBlock_eq)
  also have "\<dots> = (case scanDown (rev (take ?k a @ ?A)) (rev (take ?k b @ ?B)) of Some r \<Rightarrow> r | None \<Rightarrow> 0)"
    unfolding rev_append using len by (simp add: scanDown_append bl split: option.splits)
  finally show ?thesis unfolding sa sb .
qed

lemma uval_append: "uval (xs @ ys) = uval xs + 100000000 ^ length xs * uval ys"
  by (induction xs) (auto simp: algebra_simps)

lemma uval_bound: "limbsBelowBase d \<Longrightarrow> uval d < 100000000 ^ length d"
proof (induction d)
  case Nil
  then show ?case by simp
next
  case (Cons x d)
  then have "unat x < 100000000" and "uval d < 100000000 ^ length d"
    by (simp_all add: limbsBelowBase_def Base_def word_less_nat_alt)
  then have "unat x < 100000000" and "Suc (uval d) \<le> 100000000 ^ length d"
    by simp_all
  then have "unat x + 100000000 * uval d < 100000000 * Suc (uval d)"
    and "100000000 * Suc (uval d) \<le> 100000000 * 100000000 ^ length d"
    by simp_all
  then show ?case by simp
qed



lemma unat_below_Base: "x < Base \<Longrightarrow> unat x < 100000000"
  by (simp add: Base_def word_less_nat_alt)

lemma uint_below_Base: "x < Base \<Longrightarrow> uint x < 100000000"
  by (simp add: Base_def word_less_def)

lemma sint_diff_small:
  assumes "x < Base" "y < Base"
  shows "sint (x - y) = int (unat x) - int (unat y)"
proof -
  have x: "uint x < 100000000" "0 \<le> uint x" and y: "uint y < 100000000" "0 \<le> uint y"
    using assms by (simp_all add: uint_below_Base)
  have "sint (x - y) = sint (word_of_int (uint x - uint y) :: 32 word)"
    by (simp only: word_sub_wi)
  also have "\<dots> = signed_take_bit (LENGTH(32) - Suc 0) (uint x - uint y)"
    by (simp only: signed_of_int of_int_eq_id id_apply)
  also have "\<dots> = uint x - uint y"
  proof (rule signed_take_bit_int_eq_self)
    have p: "(2::int) ^ (LENGTH(32) - Suc 0) = 2147483648" by simp
    show "- (2 ^ (LENGTH(32) - Suc 0)) \<le> uint x - uint y" unfolding p using x y by linarith
    show "uint x - uint y < 2 ^ (LENGTH(32) - Suc 0)" unfolding p using x y by linarith
  qed
  finally show ?thesis by simp
qed


lemma scanDown_sem:
  "length xs = length ys \<Longrightarrow> list_all (\<lambda>x. x < Base) xs \<Longrightarrow> list_all (\<lambda>x. x < Base) ys \<Longrightarrow>
   (case scanDown xs ys of
      None \<Rightarrow> xs = ys
    | Some r \<Rightarrow> (sint r < 0 \<longleftrightarrow> uval (rev xs) < uval (rev ys)) \<and>
               (0 < sint r \<longleftrightarrow> uval (rev ys) < uval (rev xs)))"
proof (induction xs ys rule: list_induct2)
  case Nil
  then show ?case by simp
next
  case (Cons x xs y ys)
  let ?P = "(100000000::nat) ^ length xs"
  have bx: "x < Base" and by': "y < Base"
    and lx: "limbsBelowBase (rev xs)" and ly: "limbsBelowBase (rev ys)"
    using Cons.prems by (simp_all add: limbsBelowBase_def)
  have ux: "uval (rev (x # xs)) = uval (rev xs) + ?P * unat x"
    and uy: "uval (rev (y # ys)) = uval (rev ys) + ?P * unat y"
    using Cons.hyps by (simp_all add: uval_append)
  have Bx: "uval (rev xs) < ?P" and By: "uval (rev ys) < ?P"
    using uval_bound [OF lx] uval_bound [OF ly] Cons.hyps by simp_all
  show ?case
  proof (cases "x = y")
    case True
    then show ?thesis using Cons ux uy by (simp split: option.splits)
  next
    case False
    then have ne: "unat x \<noteq> unat y" by (simp add: word_unat_eq_iff)
    have s: "sint (x - y) = int (unat x) - int (unat y)"
      by (rule sint_diff_small [OF bx by'])
    have lt: "uval (rev xs) + ?P * unat x < uval (rev ys) + ?P * unat y" if "unat x < unat y"
    proof -
      from that have "?P * Suc (unat x) \<le> ?P * unat y" by (intro mult_le_mono2) simp
      with Bx show ?thesis by simp
    qed
    have gt: "uval (rev ys) + ?P * unat y < uval (rev xs) + ?P * unat x" if "unat y < unat x"
    proof -
      from that have "?P * Suc (unat y) \<le> ?P * unat x" by (intro mult_le_mono2) simp
      with By show ?thesis by simp
    qed
    from ne consider "unat x < unat y" | "unat y < unat x" by linarith
    then show ?thesis
    proof cases
      case 1
      with lt have u: "uval (rev (x # xs)) < uval (rev (y # ys))" unfolding ux uy by simp
      from 1 have "x < y" by (simp add: word_less_nat_alt)
      then have "uint x < uint y" by (simp add: word_less_def)
      then have "sint (x - y) < 0" using s by simp
      with u False show ?thesis by simp
    next
      case 2
      with gt have u: "uval (rev (y # ys)) < uval (rev (x # xs))" unfolding ux uy by simp
      from 2 have "y < x" by (simp add: word_less_nat_alt)
      then have "uint y < uint x" by (simp add: word_less_def)
      then have "0 < sint (x - y)" using s by simp
      with u False show ?thesis by simp
    qed
  qed
qed

lemma reverseCompare_sem:
  assumes "length a = length b" "limbsBelowBase a" "limbsBelowBase b"
  shows "(sint (reverseCompare a b) < 0 \<longleftrightarrow> uval a < uval b) \<and>
         (0 < sint (reverseCompare a b) \<longleftrightarrow> uval b < uval a) \<and>
         (reverseCompare a b = 0 \<longrightarrow> uval a = uval b)"
proof -
  have "list_all (\<lambda>x. x < Base) (rev a)" "list_all (\<lambda>x. x < Base) (rev b)"
    using assms by (simp_all add: limbsBelowBase_def)
  with scanDown_sem [of "rev a" "rev b"] assms(1)
  have "case scanDown (rev a) (rev b) of
      None \<Rightarrow> rev a = rev b
    | Some r \<Rightarrow> (sint r < 0 \<longleftrightarrow> uval (rev (rev a)) < uval (rev (rev b))) \<and>
               (0 < sint r \<longleftrightarrow> uval (rev (rev b)) < uval (rev (rev a)))"
    by simp
  then show ?thesis
    unfolding reverseCompare_scan [OF assms(1)] rev_rev_ident
    by (auto split: option.splits)
qed

lemma uval_canonical_lower:
  assumes "canonical d" "1 < length d"
  shows "100000000 ^ (length d - 1) \<le> uval d"
proof -
  from assms have "d \<noteq> []" and nz: "last d \<noteq> 0"
    by (auto simp: canonical_def)
  then have d: "d = butlast d @ [last d]" by simp
  have "unat (last d) \<noteq> 0" using nz by (simp add: unat_eq_0)
  then have m: "(100000000::nat) ^ (length d - 1) \<le> 100000000 ^ (length d - 1) * unat (last d)"
    by simp
  have "uval d = uval (butlast d) + 100000000 ^ (length d - 1) * unat (last d)"
    by (subst d) (simp add: uval_append)
  with m show ?thesis by linarith
qed

lemma uval_length_less:
  assumes "magnitude a" "magnitude b" "length a < length b"
  shows "uval a < uval b"
proof -
  have "uval a < 100000000 ^ length a"
    using assms(1) by (simp add: magnitude_def uval_bound)
  also have "\<dots> \<le> 100000000 ^ (length b - 1)"
    using assms(3) by (intro power_increasing) simp_all
  also have "\<dots> \<le> uval b"
    using assms by (intro uval_canonical_lower) (auto simp: magnitude_def canonical_def)
  finally show ?thesis .
qed

lemma U_less_correct:
  assumes "magnitude a" "magnitude b"
  shows "U_less a b \<longleftrightarrow> uval a < uval b"
proof -
  consider "length a < length b" | "length b < length a" | "length a = length b" by linarith
  then show ?thesis
  proof cases
    case 1
    then show ?thesis using uval_length_less [OF assms 1] by (simp add: U_less_def)
  next
    case 2
    then show ?thesis using uval_length_less [OF assms(2,1) 2] by (simp add: U_less_def)
  next
    case 3
    then show ?thesis
      using reverseCompare_sem [OF 3] assms by (simp add: U_less_def magnitude_def)
  qed
qed

lemma U_greater_correct:
  assumes "magnitude a" "magnitude b"
  shows "U_greater a b \<longleftrightarrow> uval b < uval a"
proof -
  consider "length a < length b" | "length b < length a" | "length a = length b" by linarith
  then show ?thesis
  proof cases
    case 1
    then show ?thesis using uval_length_less [OF assms 1] by (simp add: U_greater_def)
  next
    case 2
    then show ?thesis using uval_length_less [OF assms(2,1) 2] by (simp add: U_greater_def)
  next
    case 3
    then show ?thesis
      using reverseCompare_sem [OF 3] assms by (simp add: U_greater_def magnitude_def)
  qed
qed

lemma uval_inj_same_length:
  "length a = length b \<Longrightarrow> limbsBelowBase a \<Longrightarrow> limbsBelowBase b \<Longrightarrow> uval a = uval b \<Longrightarrow> a = b"
proof (induction a b rule: list_induct2)
  case Nil
  then show ?case by simp
next
  case (Cons x xs y ys)
  have bx: "unat x < 100000000" and by': "unat y < 100000000"
    using Cons.prems by (simp_all add: limbsBelowBase_def unat_below_Base)
  have e: "unat x + 100000000 * uval xs = unat y + 100000000 * uval ys"
    using Cons.prems by simp
  from arg_cong [OF e, of "\<lambda>v. v mod 100000000"] bx by'
  have xy: "unat x = unat y" by simp
  with e have "uval xs = uval ys" by simp
  with Cons xy show ?case by (simp add: limbsBelowBase_def word_unat_eq_iff)
qed

lemma U_eq_correct:
  assumes "magnitude a" "magnitude b"
  shows "U_eq a b \<longleftrightarrow> uval a = uval b"
proof
  assume "U_eq a b"
  then have l: "length a = length b" and t: "take (length a) a = take (length a) b"
    unfolding U_eq_def by blast+
  have "take (length a) b = b" using l by simp
  with t have "a = b" by simp
  then show "uval a = uval b" by simp
next
  assume e: "uval a = uval b"
  have "length a = length b"
    using uval_length_less [OF assms] uval_length_less [OF assms(2,1)] e
    by (metis less_irrefl linorder_neqE_nat)
  with e assms show "U_eq a b"
    by (auto simp: U_eq_def magnitude_def dest: uval_inj_same_length)
qed

text \<open>
  Claim C10. For signed values that satisfy the representation invariants (limbs below
  \<^verbatim>\<open>Base\<close>, canonical magnitude, zero magnitude implies sign clear), \<^verbatim>\<open>x < y\<close> is true exactly
  when the integer denoted by \<open>x\<close> is less than the one denoted by \<open>y\<close>, and \<^verbatim>\<open>x == y\<close> is
  true exactly when the two integers are equal.
\<close>

theorem signed_comparison_correct:
  assumes "signedInvariant x" "signedInvariant y"
  shows "(S_less x y \<longleftrightarrow> sval x < sval y) \<and> (S_eq x y \<longleftrightarrow> sval x = sval y)"
proof -
  have mx: "magnitude (absolute x)" and my: "magnitude (absolute y)"
    and zx: "sign x \<Longrightarrow> 0 < uval (absolute x)" and zy: "sign y \<Longrightarrow> 0 < uval (absolute y)"
    using assms by (auto simp: signedInvariant_def signZeroNormal_def)
  note c = U_less_correct [OF mx my] U_greater_correct [OF mx my] U_eq_correct [OF mx my]
  show ?thesis
  proof (cases "sign x"; cases "sign y")
    assume "sign x" "sign y"
    then show ?thesis using c by (auto simp: S_less_def S_eq_def sval_def)
  next
    assume "sign x" "\<not> sign y"
    then show ?thesis using zx by (auto simp: S_less_def S_eq_def sval_def)
  next
    assume "\<not> sign x" "sign y"
    then show ?thesis using zy by (auto simp: S_less_def S_eq_def sval_def)
  next
    assume "\<not> sign x" "\<not> sign y"
    then show ?thesis using c by (auto simp: S_less_def S_eq_def sval_def)
  qed
qed

theorem signed_comparison_correct_witness:
  "signedInvariant \<lparr>absolute = [5, 3], sign = True\<rparr> \<and> signedInvariant \<lparr>absolute = [7], sign = False\<rparr> \<and>
   S_less \<lparr>absolute = [5, 3], sign = True\<rparr> \<lparr>absolute = [7], sign = False\<rparr> \<and>
   sval \<lparr>absolute = [5, 3], sign = True\<rparr> < sval \<lparr>absolute = [7], sign = False\<rparr> \<and>
   \<not> S_eq \<lparr>absolute = [5, 3], sign = True\<rparr> \<lparr>absolute = [7], sign = False\<rparr>"
proof -
  have a: "signedInvariant \<lparr>absolute = [5, 3], sign = True\<rparr>"
    by (simp add: signedInvariant_def magnitude_def limbsBelowBase_def canonical_def signZeroNormal_def Base_def)
  have b: "signedInvariant \<lparr>absolute = [7], sign = False\<rparr>"
    by (simp add: signedInvariant_def magnitude_def limbsBelowBase_def canonical_def signZeroNormal_def Base_def)
  have v: "sval \<lparr>absolute = [5, 3], sign = True\<rparr> < sval \<lparr>absolute = [7], sign = False\<rparr>"
    by (simp add: sval_def)
  show ?thesis using signed_comparison_correct [OF a b] a b v by simp
qed

section \<open>Verification: canonical form\<close>

text \<open>
  Claim C4. Every value a public operation produces is canonical. The decrement breaks
  it: \<^verbatim>\<open>operator--\<close> borrows through the limbs and returns without the loop that drops zero
  top limbs, which \<^verbatim>\<open>operator-=\<close> runs. Decrementing \<open>10 ^ 8\<close> (limbs \<open>[0, 1]\<close>, a canonical
  magnitude) leaves two limbs \<open>[99999999, 0]\<close>; the subtraction of one from the same value
  gives the single limb \<open>[99999999]\<close>.
\<close>

theorem decrement_not_canonical:
  "magnitude [0, 1] \<and> U_decrement [0, 1] = Inr [99999999, 0] \<and> \<not> canonical [99999999, 0] \<and>
   U_sub_assign [0, 1] [1] = Inr [99999999]"
  by (simp add: magnitude_def limbsBelowBase_def canonical_def U_decrement_def U_bool_def
      decrementLoop.simps Base_def U_sub_assign_def U_greatereq_def borrowLoop.simps
      truncateZeros.simps)

section \<open>Verification: sign of zero\<close>

text \<open>
  Claim C5. A signed value with zero magnitude has its sign flag clear. The constructor
  from a floating-point value takes \<^verbatim>\<open>sign(value < 0)\<close> as it is: for \<open>- 1 / 2\<close> the magnitude is
  the single limb 0 and the flag is set, whatever the rounding of the quotient
  \<open>(1 / 2) / 10 ^ 8\<close>, as long as it stays in \<open>[0, 1)\<close>.
\<close>

theorem floating_negative_zero:
  assumes "0 \<le> rnd (1 / 2 / 100000000)" "rnd (1 / 2 / 100000000) < 1"
  shows "S_from_floating rnd (- 1 / 2) = Some (Inr \<lparr>absolute = [0], sign = True\<rparr>) \<and>
         \<not> signZeroNormal \<lparr>absolute = [0], sign = True\<rparr>"
proof -
  have f: "\<lfloor>rnd (1 / 200000000)\<rfloor> = 0"
    using assms by (simp add: floor_eq_iff)
  have m: "\<lfloor>fmodBase (1 / 2)\<rfloor> = 0"
    by (simp add: fmodBase_def)
  have "floatLimbs rnd (1 / 2) = Some [0]"
    by (subst floatLimbs.simps) (simp add: f m Let_def)
  then show ?thesis
    by (simp add: S_from_floating_def U_from_floating_def andThen_def signZeroNormal_def)
qed

theorem floating_negative_zero_witness:
  "S_from_floating (\<lambda>x. x) (- 1 / 2) = Some (Inr \<lparr>absolute = [0], sign = True\<rparr>) \<and>
   \<not> signZeroNormal \<lparr>absolute = [0], sign = True\<rparr>"
  using floating_negative_zero [of "\<lambda>x. x"] by simp

section \<open>Verification: capacity check of the multiplication\<close>

text \<open>
  Claim C6 says a product is rejected when the lengths add up to more than
  \<^verbatim>\<open>TransformLimit\<close>. The code checks each operand on its own, and only on the transform
  branch: a magnitude of 4194304 limbs times a one-limb magnitude is multiplied by the
  schoolbook branch and returns.
\<close>

theorem multiply_sum_over_limit_accepted:
  "magnitude (replicate 4194304 1) \<and> magnitude [1] \<and>
   TransformLimit < length (replicate 4194304 (1::u32)) + length [1::u32] \<and>
   U_mul_assign exactTransform (replicate 4194304 1) [1] = Inr (schoolbook (replicate 4194304 1) [1])"
  by (simp add: magnitude_def limbsBelowBase_def canonical_def Base_def TransformLimit_def
      U_mul_assign_def BruteforceThreshold_def list_all_length)

text \<open>
  Claim C6 as amended: the multiplication throws exactly when both operands have at least
  \<^verbatim>\<open>BruteforceThreshold\<close> limbs and one of them alone has more than \<^verbatim>\<open>TransformLimit\<close> limbs.
\<close>

theorem multiply_rejects_iff:
  "U_mul_assign F a b = Inl InvalidArgument \<longleftrightarrow>
     BruteforceThreshold \<le> length a \<and> BruteforceThreshold \<le> length b \<and>
     (TransformLimit < length a \<or> TransformLimit < length b)"
  by (auto simp: U_mul_assign_def)

section \<open>Verification: division by zero\<close>

lemma zero_magnitude:
  assumes "magnitude y" "uval y = 0"
  shows "y = [0]"
proof -
  have "\<not> 1 < length y"
  proof
    assume l: "1 < length y"
    then have "100000000 ^ (length y - 1) \<le> uval y"
      using assms(1) by (intro uval_canonical_lower) (simp_all add: magnitude_def)
    with assms(2) show False by simp
  qed
  with assms(1) have "length y = 1" by (auto simp: magnitude_def canonical_def)
  then obtain x where y: "y = [x]" by (cases y) auto
  with assms(2) have "x = 0" by (simp add: unat_eq_0)
  with y show ?thesis by simp
qed

text \<open>
  Claim C8. With a zero divisor, \<^verbatim>\<open>x /= y\<close> and \<^verbatim>\<open>x %= y\<close> throw \<^verbatim>\<open>std::invalid_argument\<close> (the
  validity checks being enabled) and \<open>x\<close> holds afterwards the value it held before, for
  every \<open>x\<close> and whatever the transform branch of the multiplication computes.
\<close>

theorem division_by_zero_rejected:
  assumes "magnitude y" "uval y = 0"
  shows "U_div_assign F x y = Some (Some InvalidArgument, x) \<and>
         U_mod_assign F x y = Some (Some InvalidArgument, x)"
proof -
  have "y = [0]" using assms by (rule zero_magnitude)
  then have "\<not> U_bool y" by (simp add: U_bool_def)
  then show ?thesis by (simp add: U_div_assign_def U_mod_assign_def)
qed

theorem division_by_zero_rejected_witness:
  "magnitude [0] \<and> uval [0] = 0 \<and>
   U_div_assign exactTransform [7, 3] [0] = Some (Some InvalidArgument, [7, 3]) \<and>
   U_mod_assign exactTransform [7, 3] [0] = Some (Some InvalidArgument, [7, 3])"
proof -
  have m: "magnitude [0]"
    by (simp add: magnitude_def limbsBelowBase_def canonical_def Base_def)
  have z: "uval [0] = 0" by simp
  show ?thesis
    using division_by_zero_rejected [OF m z, of exactTransform "[7, 3]"] m z by simp
qed

section \<open>Verification: moved-from objects\<close>

text \<open>
  Claim C9 says the source of a move is left as the zero value \<open>[0]\<close>. The move assignment
  is guarded by \<^verbatim>\<open>if (this != &other)\<close>: an object move-assigned to itself is left as it
  was. Here the object at address 0 holds the limb 5 before and after \<^verbatim>\<open>x = std::move(x)\<close>.
\<close>

theorem self_move_keeps_value:
  "limbsOf (moveAssign
       \<lparr>objects = [0 \<mapsto> \<lparr>digits = 0, len = 1, capacity = 1\<rparr>], arrays = [0 \<mapsto> [5]], nextPointer = 1\<rparr> 0 0) 0
   = Some [5]"
  by (simp add: moveAssign_def limbsOf_def)

text \<open>
  Claim C9 as amended: after a move construction, and after a move assignment between two
  different objects that own different arrays, the source is the zero value: its array is
  the single limb 0, its length and capacity are 1.
\<close>

theorem moved_from_is_zero:
  assumes "objects h other = Some ob"
  shows "limbsOf (moveConstruct h this other) other = Some [0] \<and>
         map_option len (objects (moveConstruct h this other) other) = Some 1 \<and>
         map_option capacity (objects (moveConstruct h this other) other) = Some 1 \<and>
         (\<forall>tb. objects h this = Some tb \<and> this \<noteq> other \<and> digits tb \<noteq> digits ob \<longrightarrow>
            limbsOf (moveAssign h this other) other = Some [0] \<and>
            map_option len (objects (moveAssign h this other) other) = Some 1 \<and>
            map_option capacity (objects (moveAssign h this other) other) = Some 1)"
  using assms
  by (auto simp: moveConstruct_def moveAssign_def newZeroArray_def limbsOf_def Let_def)

theorem moved_from_is_zero_witness:
  "limbsOf (moveAssign
       \<lparr>objects = [0 \<mapsto> \<lparr>digits = 0, len = 1, capacity = 1\<rparr>, 1 \<mapsto> \<lparr>digits = 1, len = 2, capacity = 2\<rparr>],
        arrays = [0 \<mapsto> [5], 1 \<mapsto> [7, 3]], nextPointer = 2\<rparr> 0 1) 1 = Some [0] \<and>
   limbsOf (moveAssign
       \<lparr>objects = [0 \<mapsto> \<lparr>digits = 0, len = 1, capacity = 1\<rparr>, 1 \<mapsto> \<lparr>digits = 1, len = 2, capacity = 2\<rparr>],
        arrays = [0 \<mapsto> [5], 1 \<mapsto> [7, 3]], nextPointer = 2\<rparr> 0 1) 0 = Some [7, 3]"
proof -
  let ?h = "\<lparr>objects = [0 \<mapsto> \<lparr>digits = 0, len = 1, capacity = 1\<rparr>, 1 \<mapsto> \<lparr>digits = 1, len = 2, capacity = 2\<rparr>],
        arrays = [0 \<mapsto> [5], 1 \<mapsto> [7, 3::u32]], nextPointer = 2\<rparr>"
  have o: "objects ?h 1 = Some \<lparr>digits = 1, len = 2, capacity = 2\<rparr>" by simp
  have t: "objects ?h 0 = Some \<lparr>digits = 0, len = 1, capacity = 1\<rparr> \<and> (0::nat) \<noteq> 1 \<and>
           digits \<lparr>digits = 0, len = 1, capacity = 1\<rparr> \<noteq> digits \<lparr>digits = 1, len = 2, capacity = 2\<rparr>"
    by simp
  have "limbsOf (moveAssign ?h 0 1) 1 = Some [0]"
    using moved_from_is_zero [OF o, of 0] t by blast
  moreover have "limbsOf (moveAssign ?h 0 1) 0 = Some [7, 3]"
    by (simp add: moveAssign_def newZeroArray_def limbsOf_def)
  ultimately show ?thesis by simp
qed

section \<open>Verification: decimal round trip\<close>

lemma dec_append: "dec (xs @ ys) = dec xs * 10 ^ length ys + dec ys"
  by (induction xs) (simp_all add: algebra_simps power_add)

lemma digitOf_less: "isDigit c \<Longrightarrow> digitOf c < 10"
  unfolding isDigit_def digitOf_def by linarith

lemma dec_less: "list_all isDigit s \<Longrightarrow> dec s < 10 ^ length s"
proof (induction s)
  case Nil
  then show ?case by simp
next
  case (Cons c s)
  then have "digitOf c \<le> 9" and "dec s < 10 ^ length s"
    using digitOf_less [of c] by simp_all
  then have "digitOf c * 10 ^ length s \<le> 9 * 10 ^ length s"
    by (intro mult_le_mono1)
  with \<open>dec s < 10 ^ length s\<close>
  have "digitOf c * 10 ^ length s + dec s < 10 * 10 ^ length s" by linarith
  then show ?case by simp
qed

lemma digitChar_digitOf: "isDigit c \<Longrightarrow> digitChar (digitOf c) = c"
  by (simp add: isDigit_def digitOf_def digitChar_def)

lemma digitOf_digitChar: "n < 10 \<Longrightarrow> digitOf (digitChar n) = n"
  by (simp add: digitOf_def digitChar_def)

lemma isDigit_digitChar: "n < 10 \<Longrightarrow> isDigit (digitChar n)"
  by (simp add: isDigit_def digitChar_def)

lemma and15: "n < 10 \<Longrightarrow> (of_nat (48 + n) AND 15 :: u32) = of_nat n"
proof -
  assume "n < 10"
  then consider "n = 0" | "n = 1" | "n = 2" | "n = 3" | "n = 4" | "n = 5" | "n = 6" | "n = 7"
    | "n = 8" | "n = 9" by fastforce
  then show ?thesis by cases simp_all
qed

lemma of_char_and15:
  assumes "isDigit c"
  shows "(of_char c AND 15 :: u32) = of_nat (digitOf c)"
proof -
  have "(of_char c :: nat) = 48 + digitOf c" and "digitOf c < 10"
    using assms digitOf_less [OF assms] by (simp_all add: isDigit_def digitOf_def)
  then have "(of_char c :: u32) = of_nat (48 + digitOf c)"
    by (simp only: of_nat_of_char [symmetric, where 'a = u32])
  then show ?thesis using and15 [OF \<open>digitOf c < 10\<close>] by simp
qed


lemma Suc_plus:
  "pos + 1 = Suc pos" "pos + 2 = Suc (Suc pos)" "pos + 3 = Suc (Suc (Suc pos))"
  "pos + 4 = Suc (Suc (Suc (Suc pos)))" "pos + 5 = Suc (Suc (Suc (Suc (Suc pos))))"
  "pos + 6 = Suc (Suc (Suc (Suc (Suc (Suc pos)))))"
  "pos + 7 = Suc (Suc (Suc (Suc (Suc (Suc (Suc pos))))))"
  by simp_all

lemma unat_of_nat32: "n < 4294967296 \<Longrightarrow> unat (of_nat n :: u32) = n"
  by (simp add: unat_of_nat)

lemma I2_val:
  assumes "isDigit (s ! i)" "isDigit (s ! (i + 1))"
  shows "I2 s i = of_nat (digitOf (s ! i) * 10 + digitOf (s ! (i + 1)))"
  using assms by (simp add: I2_def InputHelper_def of_char_and15)

lemma take_drop_nths: "pos + k \<le> length s \<Longrightarrow> take k (drop pos s) = map (\<lambda>i. s ! (pos + i)) [0 ..< k]"
  by (simp add: list_eq_iff_nth_eq)

lemma digits_nth: "list_all isDigit s \<Longrightarrow> i < length s \<Longrightarrow> isDigit (s ! i)"
  by (simp add: list_all_length)

lemma limb8_val:
  assumes "list_all isDigit s" "pos + 8 \<le> length s"
  shows "unat (limb8 s pos) = dec (take 8 (drop pos s))"
proof -
  let ?d = "\<lambda>i. digitOf (s ! (pos + i))"
  have dg: "isDigit (s ! (pos + i))" if "i < 8" for i
    using assms that by (intro digits_nth) simp_all
  have lt: "?d i < 10" if "i < 8" for i
    using dg [OF that] by (rule digitOf_less)
  have I: "I2 s (pos + i) = of_nat (?d i * 10 + ?d (i + 1))" if "i < 7" for i
    using I2_val [of s "pos + i"] dg [of i] dg [of "i + 1"] that by (simp add: add.assoc)
  let ?n = "(?d 0 * 10 + ?d 1) * 1000000 + (?d 2 * 10 + ?d 3) * 10000 + (?d 4 * 10 + ?d 5) * 100
            + (?d 6 * 10 + ?d 7)"
  have "limb8 s pos = of_nat ?n"
    using I [of 0] I [of 2] I [of 4] I [of 6] by (simp add: limb8_def)
  moreover have "?n < 4294967296"
    using lt [of 0] lt [of 1] lt [of 2] lt [of 3] lt [of 4] lt [of 5] lt [of 6] lt [of 7] by simp
  ultimately have "unat (limb8 s pos) = ?n"
    by (simp only: unat_of_nat32)
  moreover have "dec (take 8 (drop pos s)) = ?n"
    using assms(2) by (simp add: take_drop_nths upt_rec Suc_plus)
  ultimately show ?thesis by simp
qed


lemma small_nums:
  "(2::nat) = Suc (Suc 0)" "(3::nat) = Suc (Suc (Suc 0))" "(4::nat) = Suc (Suc (Suc (Suc 0)))"
  "(5::nat) = Suc (Suc (Suc (Suc (Suc 0))))" "(6::nat) = Suc (Suc (Suc (Suc (Suc (Suc 0)))))"
  by simp_all

lemma topLimb_val:
  assumes "list_all isDigit s" "1 \<le> r" "r \<le> 7" "r \<le> length s"
  shows "unat (topLimb s r) = dec (take r s)"
proof -
  let ?d = "\<lambda>i. digitOf (s ! i)"
  have dg: "isDigit (s ! i)" if "i < r" for i
    using assms that by (intro digits_nth) simp_all
  have lt: "?d i < 10" if "i < r" for i
    using dg [OF that] by (rule digitOf_less)
  have A: "(of_char (s ! 0) AND 15 :: u32) = of_nat (?d 0)"
    using dg [of 0] assms(2) by (simp add: of_char_and15)
  have I: "I2 s i = of_nat (?d i * 10 + ?d (i + 1))" if "i + 1 < r" for i
    using I2_val [of s i] dg [of i] dg [of "i + 1"] that by simp
  have T: "take r s = map (\<lambda>i. s ! i) [0 ..< r]"
    using take_drop_nths [of 0 r s] assms(4) by simp
  from assms(2,3) consider "r = 1" | "r = 2" | "r = 3" | "r = 4" | "r = 5" | "r = 6" | "r = 7"
    by fastforce
  then show ?thesis
  proof cases
    case 1
    have "topLimb s r = of_nat (?d 0)" using 1 A by (simp add: topLimb_def small_nums)
    moreover have "?d 0 < 4294967296" using lt [of 0] 1 by simp
    ultimately have "unat (topLimb s r) = ?d 0" by (simp only: unat_of_nat32)
    then show ?thesis unfolding T using 1 by (simp add: upt_rec small_nums)
  next
    case 2
    let ?n = "?d 0 * 10 + ?d 1"
    have "topLimb s r = of_nat ?n" using 2 I [of 0] by (simp add: topLimb_def small_nums)
    moreover have "?n < 4294967296" using lt [of 0] lt [of 1] 2 by simp
    ultimately have "unat (topLimb s r) = ?n" by (simp only: unat_of_nat32)
    then show ?thesis unfolding T using 2 by (simp add: upt_rec small_nums)
  next
    case 3
    let ?n = "?d 0 * 100 + (?d 1 * 10 + ?d 2)"
    have "topLimb s r = of_nat ?n" using 3 A I [of 1] by (simp add: topLimb_def small_nums)
    moreover have "?n < 4294967296" using lt [of 0] lt [of 1] lt [of 2] 3 by simp
    ultimately have "unat (topLimb s r) = ?n" by (simp only: unat_of_nat32)
    then show ?thesis unfolding T using 3 by (simp add: upt_rec small_nums)
  next
    case 4
    let ?n = "(?d 0 * 10 + ?d 1) * 100 + (?d 2 * 10 + ?d 3)"
    have "topLimb s r = of_nat ?n" using 4 I [of 0] I [of 2] by (simp add: topLimb_def small_nums)
    moreover have "?n < 4294967296" using lt [of 0] lt [of 1] lt [of 2] lt [of 3] 4 by simp
    ultimately have "unat (topLimb s r) = ?n" by (simp only: unat_of_nat32)
    then show ?thesis unfolding T using 4 by (simp add: upt_rec small_nums)
  next
    case 5
    let ?n = "?d 0 * 10000 + (?d 1 * 10 + ?d 2) * 100 + (?d 3 * 10 + ?d 4)"
    have "topLimb s r = of_nat ?n" using 5 A I [of 1] I [of 3] by (simp add: topLimb_def small_nums)
    moreover have "?n < 4294967296"
      using lt [of 0] lt [of 1] lt [of 2] lt [of 3] lt [of 4] 5 by simp
    ultimately have "unat (topLimb s r) = ?n" by (simp only: unat_of_nat32)
    then show ?thesis unfolding T using 5 by (simp add: upt_rec small_nums)
  next
    case 6
    let ?n = "(?d 0 * 10 + ?d 1) * 10000 + (?d 2 * 10 + ?d 3) * 100 + (?d 4 * 10 + ?d 5)"
    have "topLimb s r = of_nat ?n" using 6 I [of 0] I [of 2] I [of 4] by (simp add: topLimb_def small_nums)
    moreover have "?n < 4294967296"
      using lt [of 0] lt [of 1] lt [of 2] lt [of 3] lt [of 4] lt [of 5] 6 by simp
    ultimately have "unat (topLimb s r) = ?n" by (simp only: unat_of_nat32)
    then show ?thesis unfolding T using 6 by (simp add: upt_rec small_nums)
  next
    case 7
    let ?n = "?d 0 * 1000000 + (?d 1 * 10 + ?d 2) * 10000 + (?d 3 * 10 + ?d 4) * 100
              + (?d 5 * 10 + ?d 6)"
    have "topLimb s r = of_nat ?n"
      using 7 A I [of 1] I [of 3] I [of 5] by (simp add: topLimb_def small_nums)
    moreover have "?n < 4294967296"
      using lt [of 0] lt [of 1] lt [of 2] lt [of 3] lt [of 4] lt [of 5] lt [of 6] 7 by simp
    ultimately have "unat (topLimb s r) = ?n" by (simp only: unat_of_nat32)
    then show ?thesis unfolding T using 7 by (simp add: upt_rec small_nums)
  qed
qed


lemma truncateZeros_step:
  "1 < length d \<Longrightarrow> d ! (length d - 1) = 0 \<Longrightarrow> truncateZeros d = truncateZeros (take (length d - 1) d)"
  by (subst truncateZeros.simps) simp

lemma truncateZeros_stop:
  "\<not> (1 < length d \<and> d ! (length d - 1) = 0) \<Longrightarrow> truncateZeros d = d"
  by (subst truncateZeros.simps) (simp only: if_False)

lemma truncateZeros_uval: "uval (truncateZeros d) = uval d"
proof (induction d rule: truncateZeros.induct)
  case (1 d)
  show ?case
  proof (cases "1 < length d \<and> d ! (length d - 1) = 0")
    case True
    then have "take (Suc (length d - 1)) d = take (length d - 1) d @ [d ! (length d - 1)]"
      by (intro take_Suc_conv_app_nth) linarith
    with True have d: "d = take (length d - 1) d @ [0]" by simp
    have "uval d = uval (take (length d - 1) d)"
      by (subst d) (simp add: uval_append)
    moreover have "truncateZeros d = truncateZeros (take (length d - 1) d)"
      using True by (simp add: truncateZeros_step)
    ultimately show ?thesis using 1 True by simp
  next
    case False
    have "truncateZeros d = d"
      using False by (rule truncateZeros_stop)
    then show ?thesis by simp
  qed
qed

lemma truncateZeros_canonical: "d \<noteq> [] \<Longrightarrow> canonical (truncateZeros d)"
proof (induction d rule: truncateZeros.induct)
  case (1 d)
  show ?case
  proof (cases "1 < length d \<and> d ! (length d - 1) = 0")
    case True
    then have "take (length d - 1) d \<noteq> []" by auto
    with 1 True show ?thesis by (simp add: truncateZeros_step)
  next
    case False
    then have "truncateZeros d = d" by (rule truncateZeros_stop)
    moreover have "canonical d"
      using False 1(2) by (cases d rule: rev_cases) (auto simp: canonical_def)
    ultimately show ?thesis by simp
  qed
qed

lemma truncateZeros_below: "limbsBelowBase d \<Longrightarrow> limbsBelowBase (truncateZeros d)"
proof (induction d rule: truncateZeros.induct)
  case (1 d)
  show ?case
  proof (cases "1 < length d \<and> d ! (length d - 1) = 0")
    case True
    have "limbsBelowBase (take (length d - 1) d)"
      using 1(2) by (auto simp: limbsBelowBase_def list_all_iff dest: in_set_takeD)
    with 1 True show ?thesis by (simp add: truncateZeros_step)
  next
    case False
    then have "truncateZeros d = d" by (rule truncateZeros_stop)
    with 1 show ?thesis by simp
  qed
qed

lemma truncateZeros_magnitude:
  "d \<noteq> [] \<Longrightarrow> limbsBelowBase d \<Longrightarrow> magnitude (truncateZeros d)"
  by (simp add: magnitude_def truncateZeros_canonical truncateZeros_below)

lemma truncateZeros_id:
  assumes "canonical d"
  shows "truncateZeros d = d"
proof (rule truncateZeros_stop)
  show "\<not> (1 < length d \<and> d ! (length d - 1) = 0)"
  proof
    assume a: "1 < length d \<and> d ! (length d - 1) = 0"
    then have "d \<noteq> []" by auto
    then have "last d = d ! (length d - 1)" by (rule last_conv_nth)
    with a assms show False by (simp add: canonical_def)
  qed
qed



lemma limb8_below:
  assumes "list_all isDigit s" "pos + 8 \<le> length s"
  shows "limb8 s pos < Base"
proof -
  have "list_all isDigit (take 8 (drop pos s))"
    using assms(1) by (auto simp: list_all_iff dest: in_set_takeD in_set_dropD)
  then have "dec (take 8 (drop pos s)) < 10 ^ length (take 8 (drop pos s))"
    by (rule dec_less)
  moreover have "length (take 8 (drop pos s)) = 8" using assms(2) by simp
  ultimately have "unat (limb8 s pos) < 100000000"
    using limb8_val [OF assms] by simp
  then show ?thesis by (simp add: Base_def word_less_nat_alt)
qed

lemma topLimb_below:
  assumes "list_all isDigit s" "1 \<le> r" "r \<le> 7" "r \<le> length s"
  shows "topLimb s r < Base"
proof -
  have "list_all isDigit (take r s)"
    using assms(1) by (auto simp: list_all_iff dest: in_set_takeD)
  then have "dec (take r s) < 10 ^ length (take r s)"
    by (rule dec_less)
  moreover have "length (take r s) = r" using assms(4) by simp
  moreover have "(10::nat) ^ r \<le> 10 ^ 7" using assms(3) by (intro power_increasing) simp_all
  ultimately have "unat (topLimb s r) < 100000000"
    using topLimb_val [OF assms] by simp
  then show ?thesis by (simp add: Base_def word_less_nat_alt)
qed

lemma lowerLimbs:
  assumes "list_all isDigit s"
  shows "r + 8 * k \<le> length s \<Longrightarrow>
         uval (map (\<lambda>j. limb8 s (r + 8 * (k - 1 - j))) [0 ..< k]) = dec (take (8 * k) (drop r s)) \<and>
         limbsBelowBase (map (\<lambda>j. limb8 s (r + 8 * (k - 1 - j))) [0 ..< k])"
proof (induction k)
  case 0
  then show ?case by (simp add: limbsBelowBase_def)
next
  case (Suc k)
  let ?f = "\<lambda>j. limb8 s (r + 8 * (Suc k - 1 - j))"
  let ?g = "\<lambda>j. limb8 s (r + 8 * (k - 1 - j))"
  have m: "map ?f [0 ..< Suc k] = limb8 s (r + 8 * k) # map ?g [0 ..< k]"
    by (simp add: upt_conv_Cons map_Suc_upt [symmetric] del: upt_Suc)
  have pos: "(r + 8 * k) + 8 \<le> length s" using Suc.prems by simp
  have IH: "uval (map ?g [0 ..< k]) = dec (take (8 * k) (drop r s))"
    "limbsBelowBase (map ?g [0 ..< k])"
    using Suc by simp_all
  have "take (8 * k + 8) (drop r s) = take (8 * k) (drop r s) @ take 8 (drop (8 * k) (drop r s))"
    by (rule take_add)
  moreover have "drop (8 * k) (drop r s) = drop (r + 8 * k) s"
    by (simp add: add.commute)
  moreover have "8 * Suc k = 8 * k + 8" by simp
  ultimately have t: "take (8 * Suc k) (drop r s) = take (8 * k) (drop r s) @ take 8 (drop (r + 8 * k) s)"
    by (simp only:)
  have l: "length (take 8 (drop (r + 8 * k) s)) = 8" using pos by simp
  have "uval (map ?f [0 ..< Suc k]) = dec (take (8 * Suc k) (drop r s))"
    unfolding m t dec_append l using limb8_val [OF assms pos] IH(1) by simp
  moreover have "limbsBelowBase (map ?f [0 ..< Suc k])"
    unfolding m using limb8_below [OF assms pos] IH(2) by (simp add: limbsBelowBase_def)
  ultimately show ?case by simp
qed

lemma construct_written:
  assumes "length s + 7 < 2 ^ 32" "s \<noteq> []"
  shows "construct s (length s mod 2 ^ 32) ((length s + 7) mod 2 ^ 32 div 8) = truncateZeros (writtenLimbs s)"
proof -
  have a: "length s mod 2 ^ 32 = length s" "(length s + 7) mod 2 ^ 32 = length s + 7"
    using assms(1) by simp_all
  have L: "(length s + 7) div 8 = (if length s mod 8 = 0 then length s div 8 else length s div 8 + 1)"
    by presburger
  have p: "0 < (length s + 7) div 8" using assms(2) by (cases s) simp_all
  show ?thesis
    unfolding a construct_def writtenLimbs_def Let_def L using p L by auto
qed

lemma writtenLimbs_sem:
  assumes "list_all isDigit s" "s \<noteq> []"
  shows "uval (writtenLimbs s) = dec s" "limbsBelowBase (writtenLimbs s)" "writtenLimbs s \<noteq> []"
proof -
  let ?r = "length s mod 8" and ?k = "length s div 8"
  let ?low = "map (\<lambda>j. limb8 s (?r + 8 * (?k - 1 - j))) [0 ..< ?k]"
  have n: "?r + 8 * ?k = length s" by presburger
  then have le: "?r + 8 * ?k \<le> length s" by simp
  have low: "uval ?low = dec (take (8 * ?k) (drop ?r s))" "limbsBelowBase ?low"
    using lowerLimbs [OF assms(1) le] by simp_all
  have ld: "length (drop ?r s) = 8 * ?k" by (simp add: minus_mod_eq_mult_div)
  then have dr: "take (8 * ?k) (drop ?r s) = drop ?r s" by simp
  have ds: "dec s = dec (take ?r s) * 10 ^ (8 * ?k) + dec (drop ?r s)"
    using dec_append [of "take ?r s" "drop ?r s"] ld by simp
  have pw: "(100000000::nat) ^ ?k = 10 ^ (8 * ?k)"
    by (simp add: power_mult)
  show "uval (writtenLimbs s) = dec s"
  proof (cases "?r = 0")
    case True
    then show ?thesis using low(1) dr ds by (simp add: writtenLimbs_def Let_def)
  next
    case False
    then have r: "1 \<le> ?r" "?r \<le> 7" "?r \<le> length s"
      using mod_less_divisor [of 8 "length s"] mod_le_divisor n by simp_all
    have "uval (?low @ [topLimb s ?r]) = uval ?low + 100000000 ^ ?k * unat (topLimb s ?r)"
      by (simp add: uval_append)
    then show ?thesis
      using False low(1) dr ds pw topLimb_val [OF assms(1) r]
      by (simp add: writtenLimbs_def Let_def)
  qed
  show "limbsBelowBase (writtenLimbs s)"
  proof (cases "?r = 0")
    case True
    then show ?thesis using low(2) by (simp add: writtenLimbs_def Let_def)
  next
    case False
    then have r: "1 \<le> ?r" "?r \<le> 7" "?r \<le> length s"
      using mod_less_divisor [of 8 "length s"] n by simp_all
    show ?thesis
      using False low(2) topLimb_below [OF assms(1) r]
      by (simp add: writtenLimbs_def Let_def limbsBelowBase_def)
  qed
  show "writtenLimbs s \<noteq> []"
  proof (cases "?r = 0")
    case True
    with n assms(2) have "0 < ?k" by (cases "?k") auto
    with True show ?thesis by (simp add: writtenLimbs_def Let_def)
  next
    case False
    then show ?thesis by (simp add: writtenLimbs_def Let_def)
  qed
qed


lemma length_fixedWidth: "length (fixedWidth j b) = j"
  by (induction j arbitrary: b) simp_all

lemma to_string_small: "n < 10 \<Longrightarrow> to_string n = [digitChar n]"
  by (subst to_string.simps) simp

lemma to_string_large: "10 \<le> n \<Longrightarrow> to_string n = to_string (n div 10) @ [digitChar (n mod 10)]"
  by (subst to_string.simps) simp

lemma to_string_append:
  "0 < a \<Longrightarrow> b < 10 ^ j \<Longrightarrow> to_string (a * 10 ^ j + b) = to_string a @ fixedWidth j b"
proof (induction j arbitrary: b)
  case 0
  then show ?case by simp
next
  case (Suc j)
  let ?n = "a * 10 ^ Suc j + b"
  have "1 \<le> a * 10 ^ j" using Suc.prems(1) by simp
  moreover have e: "?n = 10 * (a * 10 ^ j) + b" by simp
  ultimately have big: "10 \<le> ?n" by linarith
  have d: "?n div 10 = a * 10 ^ j + b div 10" unfolding e by simp
  have m: "?n mod 10 = b mod 10" unfolding e by simp
  have b: "b div 10 < 10 ^ j" using Suc.prems(2) by (simp add: less_mult_imp_div_less mult.commute)
  show ?case
    unfolding to_string_large [OF big] d m using Suc.IH [OF Suc.prems(1) b] by simp
qed

lemma fixedWidth_add:
  "fixedWidth (i + j) b = fixedWidth i (b div 10 ^ j) @ fixedWidth j (b mod 10 ^ j)"
proof (induction j arbitrary: b)
  case 0
  then show ?case by simp
next
  case (Suc j)
  have "b div 10 div 10 ^ j = b div 10 ^ Suc j"
    by (simp add: div_mult2_eq)
  moreover have "b div 10 mod 10 ^ j = b mod 10 ^ Suc j div 10"
  proof -
    have "b mod 10 ^ Suc j = 10 * (b div 10 mod 10 ^ j) + b mod 10"
      by (simp add: mod_mult2_eq)
    then show ?thesis by simp
  qed
  moreover have "b mod 10 ^ Suc j mod 10 = b mod 10"
    by (simp add: mod_mod_cancel)
  ultimately show ?case using Suc.IH [of "b div 10"] by simp
qed


lemma OutputHelper_fixed: "OutputHelper v = fixedWidth 4 v"
proof -
  have "v div 100 = v div 10 div 10" "v div 1000 = v div 10 div 10 div 10"
    using div_mult2_eq [of v 10 10] div_mult2_eq [of v 100 10] by simp_all
  then have "fixedWidth (Suc (Suc (Suc (Suc 0)))) v = OutputHelper v"
    by (simp add: OutputHelper_def)
  then show ?thesis by (simp only: small_nums)
qed

lemma chunk8_fixed:
  "OutputHelper (x div 10000) @ OutputHelper (x mod 10000) = fixedWidth 8 x"
  using fixedWidth_add [of 4 4 x] by (simp add: OutputHelper_fixed)

lemma lower_fixed:
  "limbsBelowBase lows \<Longrightarrow>
   concat (map (\<lambda>x. OutputHelper (unat x div 10000) @ OutputHelper (unat x mod 10000)) (rev lows))
   = fixedWidth (8 * length lows) (uval lows)"
proof (induction lows)
  case Nil
  then show ?case by simp
next
  case (Cons x xs)
  have x: "unat x < 100000000" and xs: "limbsBelowBase xs"
    using Cons.prems by (simp_all add: limbsBelowBase_def unat_below_Base)
  have "fixedWidth (8 * length xs + 8) (unat x + 100000000 * uval xs)
        = fixedWidth (8 * length xs) ((unat x + 100000000 * uval xs) div 10 ^ 8)
          @ fixedWidth 8 ((unat x + 100000000 * uval xs) mod 10 ^ 8)"
    by (rule fixedWidth_add)
  moreover have "(unat x + 100000000 * uval xs) div 10 ^ 8 = uval xs"
    and "(unat x + 100000000 * uval xs) mod 10 ^ 8 = unat x"
    using x by simp_all
  moreover have "8 * length (x # xs) = 8 * length xs + 8" by simp
  ultimately show ?case
    using Cons.IH [OF xs] by (simp add: chunk8_fixed add.commute del: fixedWidth.simps)
qed

lemma U_to_string_sem:
  assumes "magnitude m"
  shows "U_to_string m = to_string (uval m)"
proof -
  from assms have ne: "m \<noteq> []" by (auto simp: magnitude_def canonical_def)
  then obtain lows top where m: "m = lows @ [top]" by (cases m rule: rev_cases) auto
  have lb: "limbsBelowBase lows" using assms m by (simp add: magnitude_def limbsBelowBase_def)
  have s: "U_to_string m = to_string (unat top) @ fixedWidth (8 * length lows) (uval lows)"
    using lower_fixed [OF lb] by (simp add: U_to_string_def m)
  show ?thesis
  proof (cases "lows = []")
    case True
    then show ?thesis using s m by simp
  next
    case False
    then have "top \<noteq> 0" using assms m by (simp add: magnitude_def canonical_def)
    then have t: "0 < unat top" by (simp add: unat_gt_0)
    have b: "uval lows < 10 ^ (8 * length lows)"
      using uval_bound [OF lb] by (simp add: power_mult)
    have "uval m = unat top * 10 ^ (8 * length lows) + uval lows"
      by (simp add: m uval_append power_mult)
    then show ?thesis using to_string_append [OF t b] s by simp
  qed
qed

lemma to_string_sem: "dec (to_string n) = n \<and> list_all isDigit (to_string n) \<and> to_string n \<noteq> []"
proof (induction n rule: to_string.induct)
  case (1 n)
  show ?case
  proof (cases "n < 10")
    case True
    then show ?thesis
      by (simp add: to_string_small digitOf_digitChar isDigit_digitChar)
  next
    case False
    then have big: "10 \<le> n" by simp
    have "n mod 10 < 10" by simp
    then show ?thesis
      using 1 [OF False]
      by (simp add: to_string_large [OF big] dec_append digitOf_digitChar isDigit_digitChar)
  qed
qed

lemma to_string_length: "0 < j \<Longrightarrow> n < 10 ^ j \<Longrightarrow> length (to_string n) \<le> j"
proof (induction j arbitrary: n)
  case 0
  then show ?case by simp
next
  case (Suc j)
  show ?case
  proof (cases "n < 10")
    case True
    then show ?thesis by (simp add: to_string_small)
  next
    case False
    then have big: "10 \<le> n" by simp
    have j: "0 < j"
    proof (rule ccontr)
      assume "\<not> 0 < j"
      with Suc.prems(2) big show False by simp
    qed
    have "n div 10 < 10 ^ j"
      using Suc.prems(2) by (simp add: less_mult_imp_div_less mult.commute)
    then have "length (to_string (n div 10)) \<le> j" using j by (rule Suc.IH [rotated])
    then show ?thesis by (simp add: to_string_large [OF big])
  qed
qed

lemma U_to_string_length:
  assumes "magnitude m"
  shows "length (U_to_string m) \<le> 8 * length m"
proof -
  have ne: "m \<noteq> []" using assms by (auto simp: magnitude_def canonical_def)
  have "uval m < 10 ^ (8 * length m)"
    using uval_bound [of m] assms by (simp add: magnitude_def power_mult)
  moreover have "0 < 8 * length m" using ne by simp
  ultimately show ?thesis
    unfolding U_to_string_sem [OF assms] by (intro to_string_length)
qed

lemma char_of_48: "char_of (48::nat) = CHR ''0''"
proof -
  have "(48::nat) = of_char (CHR ''0'')" by simp
  then show ?thesis by (simp only: char_of_char)
qed

lemma dec_zero_iff:
  "list_all isDigit s \<Longrightarrow> dec s = 0 \<longleftrightarrow> dropWhile (\<lambda>c. c = CHR ''0'') s = []"
proof (induction s)
  case Nil
  then show ?case by simp
next
  case (Cons c s)
  have "digitOf c = 0 \<longleftrightarrow> c = CHR ''0''"
    using Cons.prems digitChar_digitOf [of c] by (auto simp: digitOf_def digitChar_def char_of_48)
  with Cons show ?case by auto
qed

lemma to_string_dec:
  "list_all isDigit s \<Longrightarrow> to_string (dec s) = stripLeadingZeros s"
proof (induction s rule: rev_induct)
  case Nil
  then show ?case by (simp add: stripLeadingZeros_def to_string_small digitChar_def char_of_48)
next
  case (snoc c s)
  have dc: "isDigit c" and ds: "list_all isDigit s" using snoc.prems by simp_all
  have IH: "to_string (dec s) = stripLeadingZeros s" using snoc.IH ds by simp
  have d: "dec (s @ [c]) = dec s * 10 + digitOf c" by (simp add: dec_append)
  have lt: "digitOf c < 10" using dc by (rule digitOf_less)
  show ?case
  proof (cases "dec s = 0")
    case True
    then have z: "dropWhile (\<lambda>c. c = CHR ''0'') s = []" using dec_zero_iff [OF ds] by simp
    have "to_string (dec (s @ [c])) = [c]"
      using True d lt by (simp add: to_string_small digitChar_digitOf [OF dc])
    moreover have "stripLeadingZeros (s @ [c]) = [c]"
      using z by (auto simp: stripLeadingZeros_def dropWhile_append)
    ultimately show ?thesis by simp
  next
    case False
    then have nz: "dropWhile (\<lambda>c. c = CHR ''0'') s \<noteq> []" using dec_zero_iff [OF ds] by simp
    have big: "10 \<le> dec (s @ [c])" using False d by simp
    have "to_string (dec (s @ [c])) = to_string (dec s) @ [c]"
      unfolding to_string_large [OF big] using d lt by (simp add: digitChar_digitOf [OF dc])
    moreover have "stripLeadingZeros (s @ [c]) = stripLeadingZeros s @ [c]"
      using nz by (auto simp: stripLeadingZeros_def dropWhile_append)
    ultimately show ?thesis using IH by simp
  qed
qed


lemma magnitude_eqI:
  assumes "magnitude a" "magnitude b" "uval a = uval b"
  shows "a = b"
proof -
  have "U_eq a b" using U_eq_correct [OF assms(1,2)] assms(3) by simp
  then have l: "length a = length b" and t: "take (length a) a = take (length a) b"
    unfolding U_eq_def by blast+
  have "take (length a) b = b" using l by simp
  with t show ?thesis by simp
qed

lemma U_from_string_sem:
  assumes "s \<noteq> []" "list_all isDigit s" "length s + 7 < 2 ^ 32"
  shows "U_from_string s = Inr (truncateZeros (writtenLimbs s))"
    and "magnitude (truncateZeros (writtenLimbs s))"
    and "uval (truncateZeros (writtenLimbs s)) = dec s"
proof -
  show "U_from_string s = Inr (truncateZeros (writtenLimbs s))"
    using assms construct_written [OF assms(3,1)] by (simp add: U_from_string_def)
  show "magnitude (truncateZeros (writtenLimbs s))"
    using writtenLimbs_sem [OF assms(2,1)] by (intro truncateZeros_magnitude)
  show "uval (truncateZeros (writtenLimbs s)) = dec s"
    using writtenLimbs_sem(1) [OF assms(2,1)] by (simp add: truncateZeros_uval)
qed

text \<open>
  Claim C7 says the decimal round trip holds for every magnitude and every non-empty digit
  string. The string constructor computes the number of limbs as
  \<^verbatim>\<open>std::uint32_t(value.size() + 7) >> 3\<close>: for a string of \<open>2 ^ 32\<close> characters \<open>1\<close> this is 0,
  the value has no limb and prints as \<open>0\<close>.
\<close>

theorem round_trip_fails_for_long_string:
  "list_all isDigit (replicate 4294967296 (CHR ''1'')) \<and>
   U_from_string (replicate 4294967296 (CHR ''1'')) = Inr [] \<and>
   U_to_string [] = ''0'' \<and>
   stripLeadingZeros (replicate 4294967296 (CHR ''1'')) \<noteq> ''0''"
proof -
  let ?s = "replicate 4294967296 (CHR ''1'')"
  have d: "list_all isDigit ?s" by (simp add: list_all_length isDigit_def)
  have "construct ?s (length ?s mod 2 ^ 32) ((length ?s + 7) mod 2 ^ 32 div 8) = []"
    by (simp add: construct_def truncateZeros.simps)
  then have p: "U_from_string ?s = Inr []" using d by (simp add: U_from_string_def)
  have "hd ?s = CHR ''1''" by (rule hd_replicate) simp
  then have "dropWhile (\<lambda>c. c = CHR ''0'') ?s = ?s"
    by (simp add: dropWhile_eq_self_iff)
  then have "stripLeadingZeros ?s = ?s" by (simp add: stripLeadingZeros_def)
  moreover have "length ?s \<noteq> length ''0''" by simp
  ultimately have "stripLeadingZeros ?s \<noteq> ''0''" by metis
  with d p show ?thesis by (simp add: U_to_string_def)
qed

text \<open>
  Claim C7 as amended: for every magnitude \<open>v\<close> of fewer than \<open>2 ^ 29\<close> limbs, parsing the
  string \<^verbatim>\<open>operator std::string\<close> gives yields \<open>v\<close> again; and for every non-empty string
  \<open>s\<close> of decimal digits shorter than \<open>2 ^ 32 - 7\<close> characters, parsing succeeds and the
  parsed value prints as \<open>s\<close> without its insignificant leading zeros (a single \<open>0\<close>
  when the value is zero).
\<close>

theorem decimal_round_trip:
  "(magnitude v \<and> length v < 2 ^ 29 \<longrightarrow> U_from_string (U_to_string v) = Inr v) \<and>
   (s \<noteq> [] \<and> list_all isDigit s \<and> length s + 7 < 2 ^ 32 \<longrightarrow>
      (\<exists>m. U_from_string s = Inr m \<and> U_to_string m = stripLeadingZeros s))"
proof (intro conjI impI)
  assume a: "magnitude v \<and> length v < 2 ^ 29"
  then have mv: "magnitude v" by simp
  let ?t = "U_to_string v"
  have t: "?t = to_string (uval v)" using mv by (rule U_to_string_sem)
  have ts: "dec ?t = uval v" "list_all isDigit ?t" "?t \<noteq> []"
    unfolding t using to_string_sem [of "uval v"] by simp_all
  have "length ?t \<le> 8 * length v" using mv by (rule U_to_string_length)
  with a have len: "length ?t + 7 < 2 ^ 32" by simp
  note p = U_from_string_sem [OF ts(3) ts(2) len]
  have "truncateZeros (writtenLimbs ?t) = v"
    using p(2) mv by (rule magnitude_eqI) (simp add: p(3) ts(1))
  with p(1) show "U_from_string ?t = Inr v" by simp
next
  assume a: "s \<noteq> [] \<and> list_all isDigit s \<and> length s + 7 < 2 ^ 32"
  then have s: "s \<noteq> []" "list_all isDigit s" "length s + 7 < 2 ^ 32" by simp_all
  note p = U_from_string_sem [OF s]
  have "U_to_string (truncateZeros (writtenLimbs s)) = to_string (dec s)"
    using U_to_string_sem [OF p(2)] p(3) by simp
  also have "\<dots> = stripLeadingZeros s" using s(2) by (rule to_string_dec)
  finally show "\<exists>m. U_from_string s = Inr m \<and> U_to_string m = stripLeadingZeros s"
    using p(1) by blast
qed

theorem decimal_round_trip_witness:
  "magnitude [5, 3] \<and> length [5, 3 :: u32] < 2 ^ 29 \<and> U_from_string (U_to_string [5, 3]) = Inr [5, 3] \<and>
   ''007'' \<noteq> [] \<and> list_all isDigit ''007'' \<and> length ''007'' + 7 < (2::nat) ^ 32 \<and>
   (\<exists>m. U_from_string ''007'' = Inr m \<and> U_to_string m = stripLeadingZeros ''007'')"
proof -
  have m: "magnitude [5, 3] \<and> length [5, 3 :: u32] < 2 ^ 29"
    by (simp add: magnitude_def limbsBelowBase_def canonical_def Base_def)
  have d: "''007'' \<noteq> [] \<and> list_all isDigit ''007'' \<and> length ''007'' + 7 < (2::nat) ^ 32"
    by (simp add: isDigit_def)
  show ?thesis
    using decimal_round_trip [of "[5, 3]" "''007''"] m d by blast
qed

end
